theory Spec2Isabelle
  imports Main
begin

section \<open>The grid placement engine of crossword-go\<close>

text \<open>
  A shallow embedding of the crossword engine of \<^verbatim>\<open>utils/render.go\<close> (second
  document of that file: \<^verbatim>\<open>Crossword\<close>, \<^verbatim>\<open>canBePlaced\<close>, \<^verbatim>\<open>putWord\<close>,
  \<^verbatim>\<open>findBestPosition\<close>, \<^verbatim>\<open>GeneratePuzzle\<close>, \<^verbatim>\<open>removeWord\<close>,
  \<^verbatim>\<open>hasAdjacentWords\<close>).

  \<^item> Go's \<^verbatim>\<open>int\<close> is modelled by \<^typ>\<open>int\<close>: coordinates and counters stay far from
    \<open>2^63\<close> on any grid that fits in memory.
  \<^item> A Go string is indexed by bytes and \<^verbatim>\<open>rune(word[j])\<close> is the byte at offset
    \<open>j\<close>; so a word is a \<^typ>\<open>string\<close> (a list of 8-bit characters) and a board
    cell is a \<^typ>\<open>char\<close>.
  \<^item> A slice of slices is a list of lists, indexed \<open>[x][y]\<close> with \<open>x\<close> the row.
    A write outside the slice panics in Go: \<open>store\<close> returns \<open>None\<close> there, and
    every operation that writes returns an option, \<open>None\<close> being the panic.
  \<^item> \<^verbatim>\<open>map[string]bool\<close> is a map \<open>string \<rightharpoonup> bool\<close>; the lookup
    \<^verbatim>\<open>c.usedWords[word]\<close> is true exactly when the entry is \<open>Some True\<close>.
\<close>

subsection \<open>Data\<close>

datatype Direction = Horizontal | Vertical

record Position =
  X :: int
  Y :: int
  Dir :: Direction

record WordPlacement = Position +
  Length :: int
  Word :: string

record Crossword =
  board :: "char list list"
  hWords :: "int list list"
  vWords :: "int list list"
  width :: int
  height :: int
  usedWords :: "string \<rightharpoonup> bool"
  placements :: "WordPlacement list"
  hCount :: int
  vCount :: int

subsection \<open>Slices of slices\<close>

definition in_bounds :: "'a list list \<Rightarrow> int \<Rightarrow> int \<Rightarrow> bool" where
  "in_bounds g x y \<longleftrightarrow>
     0 \<le> x \<and> x < int (length g) \<and> 0 \<le> y \<and> y < int (length (g ! nat x))"

definition cell :: "'a list list \<Rightarrow> int \<Rightarrow> int \<Rightarrow> 'a" where
  "cell g x y = g ! nat x ! nat y"

definition store :: "'a list list \<Rightarrow> int \<Rightarrow> int \<Rightarrow> 'a \<Rightarrow> 'a list list option" where
  "store g x y v =
     (if in_bounds g x y then Some (g[nat x := (g ! nat x)[nat y := v]]) else None)"

subsection \<open>NewCrossword\<close>

text \<open>\<^verbatim>\<open>make\<close> panics on a negative length: for a negative height at once, for a
  negative width in the first iteration of the row loop.\<close>

definition NewCrossword :: "int \<Rightarrow> int \<Rightarrow> Crossword option" where
  "NewCrossword w h =
     (if h < 0 \<or> (0 < h \<and> w < 0) then None
      else Some \<lparr> board = replicate (nat h) (replicate (nat w) CHR '' ''),
                  hWords = replicate (nat h) (replicate (nat w) 0),
                  vWords = replicate (nat h) (replicate (nat w) 0),
                  width = w, height = h, usedWords = Map.empty, placements = [],
                  hCount = 0, vCount = 0 \<rparr>)"

definition isValidPosition :: "Crossword \<Rightarrow> int \<Rightarrow> int \<Rightarrow> bool" where
  "isValidPosition c x y \<longleftrightarrow> x \<ge> 0 \<and> x < height c \<and> y \<ge> 0 \<and> y < width c"

subsection \<open>canBePlaced\<close>

text \<open>The scan over the word's cells; \<open>(x1, y1)\<close> is the cell of the character at
  the head of the remaining word, \<open>n\<close> the intersections counted so far. \<open>None\<close> is
  the early \<^verbatim>\<open>return -1\<close>. The reads are all behind \<open>isValidPosition\<close>.\<close>

fun scanWord :: "Crossword \<Rightarrow> Direction \<Rightarrow> int \<Rightarrow> int \<Rightarrow> string \<Rightarrow> int \<Rightarrow> int option" where
  "scanWord c dir x1 y1 [] n = Some n"
| "scanWord c Horizontal x1 y1 (ch # rest) n =
     (if \<not> isValidPosition c x1 y1 then None
      else if cell (board c) x1 y1 \<noteq> CHR '' '' \<and> cell (board c) x1 y1 \<noteq> ch then None
      else if isValidPosition c (x1 - 1) y1 \<and> cell (hWords c) (x1 - 1) y1 > 0 then None
      else if isValidPosition c (x1 + 1) y1 \<and> cell (hWords c) (x1 + 1) y1 > 0 then None
      else scanWord c Horizontal x1 (y1 + 1) rest
             (if cell (board c) x1 y1 = ch then n + 1 else n))"
| "scanWord c Vertical x1 y1 (ch # rest) n =
     (if \<not> isValidPosition c x1 y1 then None
      else if cell (board c) x1 y1 \<noteq> CHR '' '' \<and> cell (board c) x1 y1 \<noteq> ch then None
      else if isValidPosition c x1 (y1 - 1) \<and> cell (vWords c) x1 (y1 - 1) > 0 then None
      else if isValidPosition c x1 (y1 + 1) \<and> cell (vWords c) x1 (y1 + 1) > 0 then None
      else scanWord c Vertical (x1 + 1) y1 rest
             (if cell (board c) x1 y1 = ch then n + 1 else n))"

text \<open>A boundary cell blocks the word when it is in the grid and holds neither a
  blank nor a block marker.\<close>

definition blocked :: "Crossword \<Rightarrow> int \<Rightarrow> int \<Rightarrow> bool" where
  "blocked c x y \<longleftrightarrow>
     isValidPosition c x y \<and> cell (board c) x y \<noteq> CHR '' '' \<and> cell (board c) x y \<noteq> CHR ''*''"

definition canBePlaced :: "Crossword \<Rightarrow> string \<Rightarrow> int \<Rightarrow> int \<Rightarrow> Direction \<Rightarrow> int" where
  "canBePlaced c word x y dir =
     (case scanWord c dir x y word 0 of
        None \<Rightarrow> - 1
      | Some intersections \<Rightarrow>
          (case dir of
             Horizontal \<Rightarrow>
               if blocked c x (y - 1) then - 1
               else if blocked c x (y + int (length word)) then - 1
               else intersections
           | Vertical \<Rightarrow>
               if blocked c (x - 1) y then - 1
               else if blocked c (x + int (length word)) y then - 1
               else intersections))"

subsection \<open>putWord\<close>

fun putLetters :: "Crossword \<Rightarrow> Direction \<Rightarrow> int \<Rightarrow> int \<Rightarrow> int \<Rightarrow> string \<Rightarrow> Crossword option" where
  "putLetters c dir v x1 y1 [] = Some c"
| "putLetters c Horizontal v x1 y1 (ch # rest) =
     (case store (board c) x1 y1 ch of
        None \<Rightarrow> None
      | Some b \<Rightarrow>
          (case store (hWords c) x1 y1 v of
             None \<Rightarrow> None
           | Some h \<Rightarrow> putLetters (c\<lparr>board := b, hWords := h\<rparr>) Horizontal v x1 (y1 + 1) rest))"
| "putLetters c Vertical v x1 y1 (ch # rest) =
     (case store (board c) x1 y1 ch of
        None \<Rightarrow> None
      | Some b \<Rightarrow>
          (case store (vWords c) x1 y1 v of
             None \<Rightarrow> None
           | Some h \<Rightarrow> putLetters (c\<lparr>board := b, vWords := h\<rparr>) Vertical v (x1 + 1) y1 rest))"

definition putBlock :: "Crossword \<Rightarrow> int \<Rightarrow> int \<Rightarrow> Crossword option" where
  "putBlock c x y =
     (if isValidPosition c x y
      then (case store (board c) x y CHR ''*'' of
              None \<Rightarrow> None
            | Some b \<Rightarrow> Some (c\<lparr>board := b\<rparr>))
      else Some c)"

definition putWord :: "Crossword \<Rightarrow> string \<Rightarrow> int \<Rightarrow> int \<Rightarrow> Direction \<Rightarrow> Crossword option" where
  "putWord c word x y dir =
     (if usedWords c word = Some True then Some c
      else
        let c1 = (case dir of
                    Horizontal \<Rightarrow> c\<lparr>hCount := hCount c + 1\<rparr>
                  | Vertical \<Rightarrow> c\<lparr>vCount := vCount c + 1\<rparr>);
            v = (case dir of Horizontal \<Rightarrow> hCount c1 | Vertical \<Rightarrow> vCount c1);
            c2 = c1\<lparr>usedWords := (usedWords c1)(word \<mapsto> True),
                    placements := placements c1 @
                      [\<lparr>X = x, Y = y, Dir = dir, Length = int (length word), Word = word\<rparr>]\<rparr>
        in case putLetters c2 dir v x y word of
             None \<Rightarrow> None
           | Some c3 \<Rightarrow>
               (case dir of
                  Horizontal \<Rightarrow>
                    (case putBlock c3 x (y - 1) of
                       None \<Rightarrow> None
                     | Some c4 \<Rightarrow> putBlock c4 x (y + int (length word)))
                | Vertical \<Rightarrow>
                    (case putBlock c3 (x - 1) y of
                       None \<Rightarrow> None
                     | Some c4 \<Rightarrow> putBlock c4 (x + int (length word)) y)))"

subsection \<open>removeWord\<close>

definition hasAdjacentWords :: "Crossword \<Rightarrow> int \<Rightarrow> int \<Rightarrow> bool" where
  "hasAdjacentWords c x y =
     list_ex (\<lambda>(dx, dy). blocked c (x + dx) (y + dy)) [(0, 1), (1, 0), (0, - 1), (- 1, 0)]"

text \<open>The loop over the word's cells only uses the word's length: \<open>k\<close> cells remain,
  the next one is \<open>(x1, y1)\<close>. The read of the other orientation's entry is not
  behind a validity check in the source, so it is range-checked here.\<close>

fun removeLetters :: "Crossword \<Rightarrow> Direction \<Rightarrow> int \<Rightarrow> int \<Rightarrow> nat \<Rightarrow> Crossword option" where
  "removeLetters c dir x1 y1 0 = Some c"
| "removeLetters c Horizontal x1 y1 (Suc k) =
     (case store (hWords c) x1 y1 0 of
        None \<Rightarrow> None
      | Some h \<Rightarrow>
          if \<not> in_bounds (vWords c) x1 y1 then None
          else if cell (vWords c) x1 y1 = 0
          then (case store (board c) x1 y1 CHR '' '' of
                  None \<Rightarrow> None
                | Some b \<Rightarrow> removeLetters (c\<lparr>hWords := h, board := b\<rparr>) Horizontal x1 (y1 + 1) k)
          else removeLetters (c\<lparr>hWords := h\<rparr>) Horizontal x1 (y1 + 1) k)"
| "removeLetters c Vertical x1 y1 (Suc k) =
     (case store (vWords c) x1 y1 0 of
        None \<Rightarrow> None
      | Some v \<Rightarrow>
          if \<not> in_bounds (hWords c) x1 y1 then None
          else if cell (hWords c) x1 y1 = 0
          then (case store (board c) x1 y1 CHR '' '' of
                  None \<Rightarrow> None
                | Some b \<Rightarrow> removeLetters (c\<lparr>vWords := v, board := b\<rparr>) Vertical (x1 + 1) y1 k)
          else removeLetters (c\<lparr>vWords := v\<rparr>) Vertical (x1 + 1) y1 k)"

definition removeBlock :: "Crossword \<Rightarrow> int \<Rightarrow> int \<Rightarrow> Crossword option" where
  "removeBlock c x y =
     (if isValidPosition c x y \<and> \<not> hasAdjacentWords c x y
      then (case store (board c) x y CHR '' '' of
              None \<Rightarrow> None
            | Some b \<Rightarrow> Some (c\<lparr>board := b\<rparr>))
      else Some c)"

definition removeWord :: "Crossword \<Rightarrow> string \<Rightarrow> int \<Rightarrow> int \<Rightarrow> Direction \<Rightarrow> Crossword option" where
  "removeWord c word x y dir =
     (case removeLetters (c\<lparr>usedWords := (usedWords c)(word := None)\<rparr>) dir x y (length word) of
        None \<Rightarrow> None
      | Some c1 \<Rightarrow>
          (case dir of
             Horizontal \<Rightarrow>
               (case removeBlock c1 x (y - 1) of
                  None \<Rightarrow> None
                | Some c2 \<Rightarrow> removeBlock c2 x (y + int (length word)))
           | Vertical \<Rightarrow>
               (case removeBlock c1 (x - 1) y of
                  None \<Rightarrow> None
                | Some c2 \<Rightarrow> removeBlock c2 (x + int (length word)) y)))"

subsection \<open>findBestPosition\<close>

text \<open>The three nested loops visit the candidates in this order.\<close>

definition candidates :: "Crossword \<Rightarrow> Position list" where
  "candidates c =
     concat (map (\<lambda>x. concat (map (\<lambda>y. [\<lparr>X = x, Y = y, Dir = Horizontal\<rparr>,
                                          \<lparr>X = x, Y = y, Dir = Vertical\<rparr>])
                                  [0 .. width c - 1]))
                 [0 .. height c - 1])"

text \<open>One step of the loop body on the pair (\<^verbatim>\<open>bestPositions\<close>,
  \<^verbatim>\<open>maxIntersections\<close>).\<close>

definition tryPosition ::
  "Crossword \<Rightarrow> string \<Rightarrow> Position \<Rightarrow> Position list \<times> int \<Rightarrow> Position list \<times> int" where
  "tryPosition c word p acc =
     (let intersections = canBePlaced c word (X p) (Y p) (Dir p)
      in if intersections < 0 then acc
         else
           let acc1 = (if intersections > snd acc then ([], intersections) else acc)
           in if intersections = snd acc1 then (fst acc1 @ [p], snd acc1) else acc1)"

definition bestPositions :: "Crossword \<Rightarrow> string \<Rightarrow> Position list \<times> int" where
  "bestPositions c word = fold (tryPosition c word) (candidates c) ([], - 1)"

text \<open>\<^verbatim>\<open>rand.Intn(n)\<close> returns some number in \<open>[0, n)\<close>. The draw is a parameter
  \<open>r\<close> of the model, reduced into that range: every value \<^verbatim>\<open>Intn\<close> can return
  is obtained for some \<open>r\<close>.\<close>

definition findBestPosition :: "Crossword \<Rightarrow> string \<Rightarrow> nat \<Rightarrow> Position option" where
  "findBestPosition c word r =
     (let best = fst (bestPositions c word)
      in if length best = 0 then None else Some (best ! (r mod length best)))"

subsection \<open>GeneratePuzzle\<close>

text \<open>
  The closure \<^verbatim>\<open>generate\<close> reads the wall clock and the random source. Both are
  made explicit:
  \<^item> the clock is the number \<open>t\<close> of deadline checks that still pass; a check with
    \<open>t = 0\<close> finds the budget exceeded, and since the clock is monotonic so does
    every later check;
  \<^item> the random source is a sequence \<open>rs\<close> of draws and the number \<open>k\<close> of draws
    made so far (one per call of \<open>findBestPosition\<close> that finds a candidate).
  The result is the returned flag with the clock, the draw count and the engine state
  at return; \<open>None\<close> is a panic of \<open>putWord\<close> or \<open>removeWord\<close>.
\<close>

function generate ::
  "string list \<Rightarrow> (nat \<Rightarrow> nat) \<Rightarrow> nat \<Rightarrow> nat \<times> nat \<times> Crossword
     \<Rightarrow> (bool \<times> nat \<times> nat \<times> Crossword) option" where
  "generate words rs pos (t, k, c) =
     (if pos \<ge> length words then Some (True, t, k, c)
      else if t = 0 then Some (False, t, k, c)
      else
        (case findBestPosition c (words ! pos) (rs k) of
           None \<Rightarrow> generate words rs (pos + 1) (t - 1, k, c)
         | Some bestPos \<Rightarrow>
             (case putWord c (words ! pos) (X bestPos) (Y bestPos) (Dir bestPos) of
                None \<Rightarrow> None
              | Some c1 \<Rightarrow>
                  (case generate words rs (pos + 1) (t - 1, k + 1, c1) of
                     None \<Rightarrow> None
                   | Some (True, t2, k2, c2) \<Rightarrow> Some (True, t2, k2, c2)
                   | Some (False, t2, k2, c2) \<Rightarrow>
                       (case removeWord c2 (words ! pos) (X bestPos) (Y bestPos) (Dir bestPos) of
                          None \<Rightarrow> None
                        | Some c3 \<Rightarrow> generate words rs (pos + 1) (t2, k2, c3))))))"
  by pat_completeness auto
termination
  by (relation "measure (\<lambda>(words, rs, pos, s). length words - pos)") auto

definition GeneratePuzzle ::
  "Crossword \<Rightarrow> string list \<Rightarrow> (nat \<Rightarrow> nat) \<Rightarrow> nat \<Rightarrow> (bool \<times> Crossword) option" where
  "GeneratePuzzle c words rs t =
     (case generate words rs 0 (t, 0, c) of
        None \<Rightarrow> None
      | Some (b, t', k', c') \<Rightarrow> Some (b, c'))"

section \<open>Notions of the proofs\<close>

subsection \<open>Well-formed states\<close>

text \<open>The three grids of a state have the dimensions that its \<open>width\<close> and \<open>height\<close>
  fields give; then a position that \<open>isValidPosition\<close> accepts is in range of every
  grid. \<open>NewCrossword\<close> builds such a state and no operation changes the shape.\<close>

definition shaped :: "'a list list \<Rightarrow> int \<Rightarrow> int \<Rightarrow> bool" where
  "shaped g h w \<longleftrightarrow> int (length g) = h \<and> (\<forall>r \<in> set g. int (length r) = w)"

definition wellFormed :: "Crossword \<Rightarrow> bool" where
  "wellFormed c \<longleftrightarrow> shaped (board c) (height c) (width c) \<and>
            shaped (hWords c) (height c) (width c) \<and>
            shaped (vWords c) (height c) (width c)"

subsection \<open>Spans\<close>

text \<open>The cell at offset \<open>j\<close> of a word that starts at \<open>(x, y)\<close>, the cells next to its
  two ends, and the occupancy map of its orientation and of the other one.\<close>

definition spanCell :: "Direction \<Rightarrow> int \<Rightarrow> int \<Rightarrow> int \<Rightarrow> int \<times> int" where
  "spanCell d x y j = (case d of Horizontal \<Rightarrow> (x, y + j) | Vertical \<Rightarrow> (x + j, y))"

definition onSpan :: "Direction \<Rightarrow> int \<Rightarrow> int \<Rightarrow> nat \<Rightarrow> int \<Rightarrow> int \<Rightarrow> bool" where
  "onSpan d x y n x' y' \<longleftrightarrow> (\<exists>j < n. spanCell d x y (int j) = (x', y'))"

definition spanIndex :: "Direction \<Rightarrow> int \<Rightarrow> int \<Rightarrow> int \<Rightarrow> int \<Rightarrow> nat" where
  "spanIndex d x y x' y' = (case d of Horizontal \<Rightarrow> nat (y' - y) | Vertical \<Rightarrow> nat (x' - x))"

definition spanValid :: "Crossword \<Rightarrow> Direction \<Rightarrow> int \<Rightarrow> int \<Rightarrow> nat \<Rightarrow> bool" where
  "spanValid c d x y n \<longleftrightarrow>
     (\<forall>j < n. isValidPosition c (fst (spanCell d x y (int j))) (snd (spanCell d x y (int j))))"

definition beforeCell :: "Direction \<Rightarrow> int \<Rightarrow> int \<Rightarrow> int \<times> int" where
  "beforeCell d x y = spanCell d x y (- 1)"

definition afterCell :: "Direction \<Rightarrow> int \<Rightarrow> int \<Rightarrow> nat \<Rightarrow> int \<times> int" where
  "afterCell d x y n = spanCell d x y (int n)"

definition own :: "Direction \<Rightarrow> Crossword \<Rightarrow> int list list" where
  "own d c = (case d of Horizontal \<Rightarrow> hWords c | Vertical \<Rightarrow> vWords c)"

definition other :: "Direction \<Rightarrow> Crossword \<Rightarrow> int list list" where
  "other d c = (case d of Horizontal \<Rightarrow> vWords c | Vertical \<Rightarrow> hWords c)"

subsection \<open>The bookkeeping of putWord\<close>

text \<open>What \<open>putWord\<close> does before it writes a cell: it increments the counter of the
  orientation, whose new value is the stamp of the word, and records the placement.\<close>

definition sameMeta :: "Crossword \<Rightarrow> Crossword \<Rightarrow> bool" where
  "sameMeta c c' \<longleftrightarrow> width c' = width c \<and> height c' = height c \<and>
     usedWords c' = usedWords c \<and> placements c' = placements c \<and>
     hCount c' = hCount c \<and> vCount c' = vCount c"

definition stamp :: "Direction \<Rightarrow> Crossword \<Rightarrow> int" where
  "stamp d c = (case d of Horizontal \<Rightarrow> hCount c + 1 | Vertical \<Rightarrow> vCount c + 1)"

definition counted :: "Direction \<Rightarrow> Crossword \<Rightarrow> Crossword" where
  "counted d c = (case d of Horizontal \<Rightarrow> c\<lparr>hCount := hCount c + 1\<rparr>
                           | Vertical \<Rightarrow> c\<lparr>vCount := vCount c + 1\<rparr>)"

definition placement :: "string \<Rightarrow> int \<Rightarrow> int \<Rightarrow> Direction \<Rightarrow> WordPlacement" where
  "placement w x y d = \<lparr>X = x, Y = y, Dir = d, Length = int (length w), Word = w\<rparr>"

subsection \<open>What canBePlaced checks and counts\<close>

text \<open>Every cell of the span holds a blank or the character of the word; the offsets
  where it is the character of the word are the ones \<open>canBePlaced\<close> counts. The score
  of a candidate is what \<open>canBePlaced\<close> returns for it, and \<open>bestScore\<close> is the
  running maximum of the loop in \<open>findBestPosition\<close>.\<close>

definition spanFits :: "Crossword \<Rightarrow> string \<Rightarrow> int \<Rightarrow> int \<Rightarrow> Direction \<Rightarrow> bool" where
  "spanFits c w x y d \<longleftrightarrow>
     (\<forall>j < length w.
        cell (board c) (fst (spanCell d x y (int j))) (snd (spanCell d x y (int j))) = CHR '' '' \<or>
        cell (board c) (fst (spanCell d x y (int j))) (snd (spanCell d x y (int j))) = w ! j)"

definition matchingCells :: "Crossword \<Rightarrow> string \<Rightarrow> int \<Rightarrow> int \<Rightarrow> Direction \<Rightarrow> nat list" where
  "matchingCells c w x y d =
     filter (\<lambda>j. cell (board c) (fst (spanCell d x y (int j))) (snd (spanCell d x y (int j))) = w ! j)
       [0 ..< length w]"

definition score :: "Crossword \<Rightarrow> string \<Rightarrow> Position \<Rightarrow> int" where
  "score c w p = canBePlaced c w (X p) (Y p) (Dir p)"

fun bestScore :: "Crossword \<Rightarrow> string \<Rightarrow> Position list \<Rightarrow> int \<Rightarrow> int" where
  "bestScore c w [] mx = mx"
| "bestScore c w (p # ps) mx =
     bestScore c w ps (if 0 \<le> score c w p \<and> mx < score c w p then score c w p else mx)"

subsection \<open>Invariants\<close>

text \<open>Letter characters are all but the blank and the block marker. A claimed cell holds
  a letter; neighbouring cells claimed in the same orientation carry the same stamp; no
  stamp exceeds its counter; no word is recorded twice and every recorded word is marked
  used.\<close>

definition notLetter :: "char \<Rightarrow> bool" where
  "notLetter ch \<longleftrightarrow> ch = CHR '' '' \<or> ch = CHR ''*''"

definition letterWord :: "string \<Rightarrow> bool" where
  "letterWord w \<longleftrightarrow> (\<forall>ch \<in> set w. \<not> notLetter ch)"

definition claimsHoldLetters :: "Crossword \<Rightarrow> bool" where
  "claimsHoldLetters c \<longleftrightarrow>
     (\<forall>x y. isValidPosition c x y \<longrightarrow>
        cell (hWords c) x y \<noteq> 0 \<or> cell (vWords c) x y \<noteq> 0 \<longrightarrow>
        \<not> notLetter (cell (board c) x y))"

definition separated :: "Crossword \<Rightarrow> bool" where
  "separated c \<longleftrightarrow>
     (\<forall>x y. (isValidPosition c x y \<and> isValidPosition c x (y + 1) \<and>
              cell (hWords c) x y > 0 \<and> cell (hWords c) x (y + 1) > 0
              \<longrightarrow> cell (hWords c) x y = cell (hWords c) x (y + 1)) \<and>
            (isValidPosition c x y \<and> isValidPosition c (x + 1) y \<and>
              cell (vWords c) x y > 0 \<and> cell (vWords c) (x + 1) y > 0
              \<longrightarrow> cell (vWords c) x y = cell (vWords c) (x + 1) y))"

definition stampsBounded :: "Crossword \<Rightarrow> bool" where
  "stampsBounded c \<longleftrightarrow> 0 \<le> hCount c \<and> 0 \<le> vCount c \<and>
     (\<forall>x y. isValidPosition c x y \<longrightarrow>
        cell (hWords c) x y \<le> hCount c \<and> cell (vWords c) x y \<le> vCount c)"

definition recorded :: "Crossword \<Rightarrow> bool" where
  "recorded c \<longleftrightarrow> distinct (map Word (placements c)) \<and>
     (\<forall>p \<in> set (placements c). usedWords c (Word p) = Some True)"

definition sound :: "Crossword \<Rightarrow> bool" where
  "sound c \<longleftrightarrow> wellFormed c \<and> claimsHoldLetters c \<and> separated c \<and> stampsBounded c"

subsection \<open>Erosion\<close>

text \<open>What removals may do to a cell: an occupancy entry stays or becomes zero, and the
  character stays or becomes a blank or a block marker in a cell that no map claims any
  more. Counters never decrease.\<close>

definition erodedCell :: "char \<times> int \<times> int \<Rightarrow> char \<times> int \<times> int \<Rightarrow> bool" where
  "erodedCell old new \<longleftrightarrow>
     (case old of (b, h, v) \<Rightarrow> case new of (b', h', v') \<Rightarrow>
        (h' = h \<or> h' = 0) \<and> (v' = v \<or> v' = 0) \<and>
        (b' = b \<or> (notLetter b' \<and> h' = 0 \<and> v' = 0)))"

definition view :: "Crossword \<Rightarrow> int \<Rightarrow> int \<Rightarrow> char \<times> int \<times> int" where
  "view c x y = (cell (board c) x y, cell (hWords c) x y, cell (vWords c) x y)"

definition eroded :: "Crossword \<Rightarrow> Crossword \<Rightarrow> bool" where
  "eroded s t \<longleftrightarrow> wellFormed t \<and> width t = width s \<and> height t = height s \<and>
     hCount s \<le> hCount t \<and> vCount s \<le> vCount t \<and>
     (\<forall>x y. isValidPosition s x y \<longrightarrow> erodedCell (view s x y) (view t x y))"

subsection \<open>Commit and undo in LIFO order\<close>

text \<open>
  A call is a word with its coordinates and orientation. \<open>lifo G c0 st c\<close>: the state
  \<open>c\<close> is reached from \<open>c0\<close> by calls of \<open>putWord\<close>, each made in a state where the
  guard \<open>G\<close> holds of the call, and calls of \<open>removeWord\<close>, each given the word and
  position of the latest \<open>putWord\<close> that is not undone yet; \<open>st\<close> lists the calls of
  \<open>putWord\<close> still to be undone, the latest first. This is how \<open>generate\<close> brackets
  its recursive call.
\<close>

type_synonym call = "string \<times> int \<times> int \<times> Direction"

inductive lifo :: "(Crossword \<Rightarrow> call \<Rightarrow> bool) \<Rightarrow> Crossword \<Rightarrow> call list \<Rightarrow> Crossword \<Rightarrow> bool"
  for G :: "Crossword \<Rightarrow> call \<Rightarrow> bool" and c0 :: Crossword where
  lifo_start: "lifo G c0 [] c0"
| lifo_put: "lifo G c0 st c \<Longrightarrow> G c (w, x, y, d) \<Longrightarrow> putWord c w x y d = Some c' \<Longrightarrow>
     lifo G c0 ((w, x, y, d) # st) c'"
| lifo_remove: "lifo G c0 ((w, x, y, d) # st) c \<Longrightarrow> removeWord c w x y d = Some c' \<Longrightarrow>
     lifo G c0 st c'"

text \<open>The guard of the claims: a word of letter characters at a position that
  \<open>canBePlaced\<close> accepts.\<close>

fun accepted :: "Crossword \<Rightarrow> call \<Rightarrow> bool" where
  "accepted c (w, x, y, d) \<longleftrightarrow> letterWord w \<and> 0 \<le> canBePlaced c w x y d"

text \<open>The invariant of the proof: every call still to be undone was accepted in a
  sound state, and the present state is what its \<open>putWord\<close> returned, up to erosion.\<close>

fun backed :: "Crossword \<Rightarrow> call list \<Rightarrow> Crossword \<Rightarrow> bool" where
  "backed c0 [] c \<longleftrightarrow> eroded c0 c"
| "backed c0 ((w, x, y, d) # st) c \<longleftrightarrow>
     (\<exists>s0 s1. backed c0 st s0 \<and> sound s0 \<and> accepted s0 (w, x, y, d) \<and>
        putWord s0 w x y d = Some s1 \<and> eroded s1 c)"

subsection \<open>Scripts of guarded calls\<close>

text \<open>A script is a list of calls of \<open>putWord\<close>, each made only where
  \<open>canBePlaced\<close> accepts (as \<open>generate\<close> does through \<open>findBestPosition\<close>), and of
  \<open>removeWord\<close>. Running a script gives \<open>None\<close> when a guard rejects or a call
  panics.\<close>

datatype step = Commit string int int Direction | Undo string int int Direction

fun applyStep :: "Crossword \<Rightarrow> step \<Rightarrow> Crossword option" where
  "applyStep c (Commit w x y d) = (if canBePlaced c w x y d < 0 then None else putWord c w x y d)"
| "applyStep c (Undo w x y d) = removeWord c w x y d"

fun applySteps :: "Crossword option \<Rightarrow> step list \<Rightarrow> Crossword option" where
  "applySteps None ss = None"
| "applySteps (Some c) [] = Some c"
| "applySteps (Some c) (s # ss) = applySteps (applyStep c s) ss"

subsection \<open>Exact undo\<close>

text \<open>A cell claimed by neither occupancy map holds a blank or a block marker.\<close>

definition noStrayLetters :: "Crossword \<Rightarrow> bool" where
  "noStrayLetters c \<longleftrightarrow>
     (\<forall>x y. isValidPosition c x y \<longrightarrow>
        cell (hWords c) x y = 0 \<and> cell (vWords c) x y = 0 \<longrightarrow>
        notLetter (cell (board c) x y))"

text \<open>No entry of an occupancy map is negative: an entry is zero or the stamp of a
  placement.\<close>

definition stampsNonneg :: "Crossword \<Rightarrow> bool" where
  "stampsNonneg c \<longleftrightarrow>
     (\<forall>x y. isValidPosition c x y \<longrightarrow>
        0 \<le> cell (hWords c) x y \<and> 0 \<le> cell (vWords c) x y)"

definition tidy :: "Crossword \<Rightarrow> bool" where
  "tidy c \<longleftrightarrow> wellFormed c \<and> claimsHoldLetters c \<and> noStrayLetters c \<and> stampsNonneg c \<and>
     0 \<le> hCount c \<and> 0 \<le> vCount c"

text \<open>No cell of the span is claimed in the word's own orientation.\<close>

definition spanFree :: "Crossword \<Rightarrow> string \<Rightarrow> int \<Rightarrow> int \<Rightarrow> Direction \<Rightarrow> bool" where
  "spanFree c w x y d \<longleftrightarrow>
     (\<forall>j < length w.
        cell (own d c) (fst (spanCell d x y (int j))) (snd (spanCell d x y (int j))) = 0)"

text \<open>The guard of an effective \<open>putWord\<close>: accepted, the word not in the used-word
  set, its span free in its own orientation.\<close>

fun effective :: "Crossword \<Rightarrow> call \<Rightarrow> bool" where
  "effective c (w, x, y, d) \<longleftrightarrow>
     accepted c (w, x, y, d) \<and> usedWords c w = None \<and> spanFree c w x y d"

text \<open>A cell of the grid that holds a letter, and a cell with such a cell among its
  four neighbours.\<close>

definition letterAt :: "Crossword \<Rightarrow> int \<Rightarrow> int \<Rightarrow> bool" where
  "letterAt c a b \<longleftrightarrow> isValidPosition c a b \<and> \<not> notLetter (cell (board c) a b)"

definition letterBeside :: "Crossword \<Rightarrow> int \<Rightarrow> int \<Rightarrow> bool" where
  "letterBeside c a b \<longleftrightarrow>
     letterAt c a (b + 1) \<or> letterAt c (a + 1) b \<or> letterAt c a (b - 1) \<or> letterAt c (a - 1) b"

text \<open>\<open>restored s t\<close>: \<open>t\<close> has the occupancy maps and the used-word set of \<open>s\<close>, and
  the board of \<open>s\<close> except that a cell with a blank or a block marker may hold the
  other of the two.\<close>

definition restored :: "Crossword \<Rightarrow> Crossword \<Rightarrow> bool" where
  "restored s t \<longleftrightarrow> wellFormed t \<and> width t = width s \<and> height t = height s \<and>
     hWords t = hWords s \<and> vWords t = vWords s \<and> usedWords t = usedWords s \<and>
     hCount s \<le> hCount t \<and> vCount s \<le> vCount t \<and>
     (\<forall>x y. isValidPosition s x y \<longrightarrow>
        cell (board t) x y = cell (board s) x y \<or>
        (notLetter (cell (board s) x y) \<and> notLetter (cell (board t) x y)))"

text \<open>\<open>settled s t\<close>: moreover, a cell of \<open>t\<close> that holds a blank where \<open>s\<close> held a
  block marker has no letter in a neighbouring cell.\<close>

definition settled :: "Crossword \<Rightarrow> Crossword \<Rightarrow> bool" where
  "settled s t \<longleftrightarrow> restored s t \<and>
     (\<forall>x y. isValidPosition s x y \<longrightarrow>
        cell (board t) x y \<noteq> cell (board s) x y \<longrightarrow> cell (board t) x y = CHR '' '' \<longrightarrow>
        \<not> hasAdjacentWords s x y)"

text \<open>The invariant of the proof: every call still to be undone was effective in a
  tidy state, and the present state is what its \<open>putWord\<close> returned, up to the
  markers.\<close>

fun bracketed :: "Crossword \<Rightarrow> call list \<Rightarrow> Crossword \<Rightarrow> bool" where
  "bracketed c0 [] c \<longleftrightarrow> settled c0 c"
| "bracketed c0 ((w, x, y, d) # st) c \<longleftrightarrow>
     (\<exists>s0 s1. bracketed c0 st s0 \<and> tidy s0 \<and> effective s0 (w, x, y, d) \<and>
        putWord s0 w x y d = Some s1 \<and> settled s1 c)"

subsection \<open>Example states\<close>

text \<open>A fresh 3-by-3 grid, the same grid after \<open>DOG\<close> is put across its first row,
  and what the removal of \<open>DOG\<close> leaves of the latter.\<close>

definition fresh33 :: Crossword where
  "fresh33 = \<lparr>board = [''   '', ''   '', ''   ''],
     hWords = [[0, 0, 0], [0, 0, 0], [0, 0, 0]],
     vWords = [[0, 0, 0], [0, 0, 0], [0, 0, 0]],
     width = 3, height = 3, usedWords = Map.empty, placements = [],
     hCount = 0, vCount = 0\<rparr>"

definition dog33 :: Crossword where
  "dog33 = \<lparr>board = [''DOG'', ''   '', ''   ''],
     hWords = [[1, 1, 1], [0, 0, 0], [0, 0, 0]],
     vWords = [[0, 0, 0], [0, 0, 0], [0, 0, 0]],
     width = 3, height = 3, usedWords = [''DOG'' \<mapsto> True],
     placements = [\<lparr>X = 0, Y = 0, Dir = Horizontal, Length = 3, Word = ''DOG''\<rparr>],
     hCount = 1, vCount = 0\<rparr>"

definition dogErased :: Crossword where
  "dogErased = \<lparr>board = [''   '', ''   '', ''   ''],
     hWords = [[0, 0, 0], [0, 0, 0], [0, 0, 0]],
     vWords = [[0, 0, 0], [0, 0, 0], [0, 0, 0]],
     width = 3, height = 3, usedWords = Map.empty,
     placements = [\<lparr>X = 0, Y = 0, Dir = Horizontal, Length = 3, Word = ''DOG''\<rparr>],
     hCount = 1, vCount = 0\<rparr>"

text \<open>A random source whose every draw is 0: \<open>findBestPosition\<close> then returns the
  first of the best candidates.\<close>

definition firstChoice :: "nat \<Rightarrow> nat" where
  "firstChoice k = 0"

text \<open>A fresh grid of two rows and four columns; the same with \<open>XY\<close> down its
  last column; then with \<open>AB\<close> across at the origin as well; and what the removal of
  \<open>AB\<close> leaves of that.\<close>

definition fresh42 :: Crossword where
  "fresh42 = \<lparr>board = [''    '', ''    ''],
     hWords = [[0, 0, 0, 0], [0, 0, 0, 0]],
     vWords = [[0, 0, 0, 0], [0, 0, 0, 0]],
     width = 4, height = 2, usedWords = Map.empty, placements = [],
     hCount = 0, vCount = 0\<rparr>"

definition xy42 :: Crossword where
  "xy42 = \<lparr>board = [''   X'', ''   Y''],
     hWords = [[0, 0, 0, 0], [0, 0, 0, 0]],
     vWords = [[0, 0, 0, 1], [0, 0, 0, 1]],
     width = 4, height = 2, usedWords = [''XY'' \<mapsto> True],
     placements = [\<lparr>X = 0, Y = 3, Dir = Vertical, Length = 2, Word = ''XY''\<rparr>],
     hCount = 0, vCount = 1\<rparr>"

definition xyab42 :: Crossword where
  "xyab42 = \<lparr>board = [''AB*X'', ''   Y''],
     hWords = [[1, 1, 0, 0], [0, 0, 0, 0]],
     vWords = [[0, 0, 0, 1], [0, 0, 0, 1]],
     width = 4, height = 2, usedWords = [''XY'' \<mapsto> True, ''AB'' \<mapsto> True],
     placements = [\<lparr>X = 0, Y = 3, Dir = Vertical, Length = 2, Word = ''XY''\<rparr>,
                   \<lparr>X = 0, Y = 0, Dir = Horizontal, Length = 2, Word = ''AB''\<rparr>],
     hCount = 1, vCount = 1\<rparr>"

definition xyLeft42 :: Crossword where
  "xyLeft42 = \<lparr>board = [''  *X'', ''   Y''],
     hWords = [[0, 0, 0, 0], [0, 0, 0, 0]],
     vWords = [[0, 0, 0, 1], [0, 0, 0, 1]],
     width = 4, height = 2, usedWords = [''XY'' \<mapsto> True],
     placements = [\<lparr>X = 0, Y = 3, Dir = Vertical, Length = 2, Word = ''XY''\<rparr>,
                   \<lparr>X = 0, Y = 0, Dir = Horizontal, Length = 2, Word = ''AB''\<rparr>],
     hCount = 1, vCount = 1\<rparr>"

section \<open>Lemmas\<close>

subsection \<open>Grids\<close>

lemma shaped_in_bounds:
  "shaped g h w \<Longrightarrow> in_bounds g x y \<longleftrightarrow> 0 \<le> x \<and> x < h \<and> 0 \<le> y \<and> y < w"
  by (auto simp: shaped_def in_bounds_def)

lemma store_shaped:
  assumes "store g x y v = Some g'" "shaped g h w"
  shows "shaped g' h w"
proof -
  from assms have g': "g' = g[nat x := (g ! nat x)[nat y := v]]" and ib: "in_bounds g x y"
    by (auto simp: store_def split: if_splits)
  have "\<forall>r \<in> set g'. int (length r) = w"
  proof
    fix r assume "r \<in> set g'"
    then have "r \<in> insert ((g ! nat x)[nat y := v]) (set g)"
      unfolding g' using set_update_subset_insert by fastforce
    moreover have "g ! nat x \<in> set g" using ib by (auto simp: in_bounds_def)
    ultimately show "int (length r) = w" using assms(2) by (auto simp: shaped_def)
  qed
  then show ?thesis using assms(2) by (simp add: shaped_def g')
qed

lemma store_cell:
  assumes "store g x y v = Some g'" "0 \<le> x'" "0 \<le> y'"
  shows "cell g' x' y' = (if x' = x \<and> y' = y then v else cell g x' y')"
proof -
  from assms have g': "g' = g[nat x := (g ! nat x)[nat y := v]]" and ib: "in_bounds g x y"
    by (auto simp: store_def split: if_splits)
  show ?thesis
  proof (cases "x' = x")
    case True
    then show ?thesis using ib assms(2,3)
      by (auto simp: g' cell_def in_bounds_def nth_list_update)
  next
    case False
    then have "nat x' \<noteq> nat x" using ib assms(2) by (auto simp: in_bounds_def)
    then show ?thesis using False by (simp add: g' cell_def)
  qed
qed

lemma store_nonneg: "store g x y v = Some g' \<Longrightarrow> 0 \<le> x \<and> 0 \<le> y"
  by (auto simp: store_def in_bounds_def split: if_splits)

lemma shaped_ext:
  assumes "shaped g h w" "shaped g' h w"
    and "\<And>x y. 0 \<le> x \<Longrightarrow> x < h \<Longrightarrow> 0 \<le> y \<Longrightarrow> y < w \<Longrightarrow> cell g x y = cell g' x y"
  shows "g = g'"
proof (rule nth_equalityI)
  show len: "length g = length g'" using assms(1,2) by (simp add: shaped_def)
  fix i assume i: "i < length g"
  have li: "int (length (g ! i)) = w" "int (length (g' ! i)) = w"
    using assms(1,2) i len by (auto simp: shaped_def)
  show "g ! i = g' ! i"
  proof (rule nth_equalityI)
    show "length (g ! i) = length (g' ! i)" using li by simp
    fix j assume j: "j < length (g ! i)"
    have "cell g (int i) (int j) = cell g' (int i) (int j)"
      using assms(1) i j li by (intro assms(3)) (auto simp: shaped_def)
    then show "g ! i ! j = g' ! i ! j" by (simp add: cell_def)
  qed
qed

lemma wf_store_valid:
  "wellFormed c \<Longrightarrow> isValidPosition c x y \<Longrightarrow>
     (\<exists>b. store (board c) x y v = Some b) \<and> (\<exists>h. store (hWords c) x y u = Some h)
     \<and> (\<exists>h. store (vWords c) x y u = Some h)"
  using shaped_in_bounds[of "board c" "height c" "width c" x y]
    shaped_in_bounds[of "hWords c" "height c" "width c" x y]
    shaped_in_bounds[of "vWords c" "height c" "width c" x y]
  by (simp add: wellFormed_def isValidPosition_def store_def)

subsection \<open>Spans\<close>

lemma onSpan_H: "onSpan Horizontal x y n x' y' \<longleftrightarrow> x' = x \<and> y \<le> y' \<and> y' < y + int n"
proof
  assume "onSpan Horizontal x y n x' y'"
  then show "x' = x \<and> y \<le> y' \<and> y' < y + int n" by (auto simp: onSpan_def spanCell_def)
next
  assume a: "x' = x \<and> y \<le> y' \<and> y' < y + int n"
  then have "nat (y' - y) < n" "spanCell Horizontal x y (int (nat (y' - y))) = (x', y')"
    by (auto simp: spanCell_def)
  then show "onSpan Horizontal x y n x' y'" unfolding onSpan_def by blast
qed

lemma onSpan_V: "onSpan Vertical x y n x' y' \<longleftrightarrow> y' = y \<and> x \<le> x' \<and> x' < x + int n"
proof
  assume "onSpan Vertical x y n x' y'"
  then show "y' = y \<and> x \<le> x' \<and> x' < x + int n" by (auto simp: onSpan_def spanCell_def)
next
  assume a: "y' = y \<and> x \<le> x' \<and> x' < x + int n"
  then have "nat (x' - x) < n" "spanCell Vertical x y (int (nat (x' - x))) = (x', y')"
    by (auto simp: spanCell_def)
  then show "onSpan Vertical x y n x' y'" unfolding onSpan_def by blast
qed

lemma spanValid_H: "spanValid c Horizontal x y n \<longleftrightarrow> (\<forall>j < n. isValidPosition c x (y + int j))"
  by (simp add: spanValid_def spanCell_def)

lemma spanValid_V: "spanValid c Vertical x y n \<longleftrightarrow> (\<forall>j < n. isValidPosition c (x + int j) y)"
  by (simp add: spanValid_def spanCell_def)

lemma spanValid_H_Suc:
  "spanValid c Horizontal x y (Suc n) \<longleftrightarrow> isValidPosition c x y \<and> spanValid c Horizontal x (y + 1) n"
proof -
  have "(\<forall>j < Suc n. isValidPosition c x (y + int j)) \<longleftrightarrow>
        isValidPosition c x y \<and> (\<forall>j < n. isValidPosition c x (y + 1 + int j))"
  proof safe
    show "isValidPosition c x y" if "\<forall>j<Suc n. isValidPosition c x (y + int j)"
      using that[rule_format, of 0] by simp
    show "isValidPosition c x (y + 1 + int j)"
      if "\<forall>j<Suc n. isValidPosition c x (y + int j)" "j < n" for j
      using that(1)[rule_format, of "Suc j"] that(2) by (simp add: add.assoc)
    show "isValidPosition c x (y + int j)"
      if "isValidPosition c x y" "\<forall>j<n. isValidPosition c x (y + 1 + int j)" "j < Suc n" for j
    proof (cases j)
      case 0 then show ?thesis using that by simp
    next
      case (Suc i)
      then show ?thesis using that(2)[rule_format, of i] that(3) by (simp add: add.assoc)
    qed
  qed
  then show ?thesis by (simp add: spanValid_H)
qed

lemma spanValid_V_Suc:
  "spanValid c Vertical x y (Suc n) \<longleftrightarrow> isValidPosition c x y \<and> spanValid c Vertical (x + 1) y n"
proof -
  have "(\<forall>j < Suc n. isValidPosition c (x + int j) y) \<longleftrightarrow>
        isValidPosition c x y \<and> (\<forall>j < n. isValidPosition c (x + 1 + int j) y)"
  proof safe
    show "isValidPosition c x y" if "\<forall>j<Suc n. isValidPosition c (x + int j) y"
      using that[rule_format, of 0] by simp
    show "isValidPosition c (x + 1 + int j) y"
      if "\<forall>j<Suc n. isValidPosition c (x + int j) y" "j < n" for j
      using that(1)[rule_format, of "Suc j"] that(2) by (simp add: add.assoc)
    show "isValidPosition c (x + int j) y"
      if "isValidPosition c x y" "\<forall>j<n. isValidPosition c (x + 1 + int j) y" "j < Suc n" for j
    proof (cases j)
      case 0 then show ?thesis using that by simp
    next
      case (Suc i)
      then show ?thesis using that(2)[rule_format, of i] that(3) by (simp add: add.assoc)
    qed
  qed
  then show ?thesis by (simp add: spanValid_V)
qed

lemma all_less_Suc_shift: "(\<forall>j < Suc n. P j) \<longleftrightarrow> P 0 \<and> (\<forall>j < n. P (Suc j))"
  by (metis less_Suc_eq_0_disj)

lemma spanCell_shift:
  "spanCell Horizontal x y (int (Suc j)) = spanCell Horizontal x (y + 1) (int j)"
  "spanCell Vertical x y (int (Suc j)) = spanCell Vertical (x + 1) y (int j)"
  "spanCell d x y 0 = (x, y)"
  by (cases d; simp add: spanCell_def)+

lemma spanCell_Suc:
  "spanCell d x y (int (Suc j)) =
     spanCell d (fst (spanCell d x y 1)) (snd (spanCell d x y 1)) (int j)"
  by (cases d) (simp_all add: spanCell_def)

lemma spanIndex_less: "onSpan d x y n x' y' \<Longrightarrow> spanIndex d x y x' y' < n"
  by (cases d) (auto simp: onSpan_H onSpan_V spanIndex_def)

lemma spanCell_spanIndex:
  "onSpan d x y n x' y' \<Longrightarrow> spanCell d x y (int (spanIndex d x y x' y')) = (x', y')"
  by (cases d) (auto simp: onSpan_H onSpan_V spanIndex_def spanCell_def)

lemma onSpan_not_before: "onSpan d x y n x' y' \<Longrightarrow> (x', y') \<noteq> beforeCell d x y"
  by (cases d) (auto simp: onSpan_H onSpan_V beforeCell_def spanCell_def)

lemma onSpan_not_after: "onSpan d x y n x' y' \<Longrightarrow> (x', y') \<noteq> afterCell d x y n"
  by (cases d) (auto simp: onSpan_H onSpan_V afterCell_def spanCell_def)

subsection \<open>What the operations leave alone\<close>

lemma putLetters_sameMeta:
  "putLetters c d v x y w = Some c' \<Longrightarrow> sameMeta c c'"
proof (induction w arbitrary: c x y)
  case Nil
  then show ?case by (simp add: sameMeta_def)
next
  case (Cons ch rest)
  show ?case
  proof (cases d)
    case Horizontal
    from Cons.prems obtain b h where
      r: "putLetters (c\<lparr>board := b, hWords := h\<rparr>) d v x (y + 1) rest = Some c'"
      unfolding Horizontal by (auto split: option.splits)
    from Cons.IH[OF r] show ?thesis by (simp add: sameMeta_def)
  next
    case Vertical
    from Cons.prems obtain b h where
      r: "putLetters (c\<lparr>board := b, vWords := h\<rparr>) d v (x + 1) y rest = Some c'"
      unfolding Vertical by (auto split: option.splits)
    from Cons.IH[OF r] show ?thesis by (simp add: sameMeta_def)
  qed
qed

lemma putBlock_sameMeta: "putBlock c x y = Some c' \<Longrightarrow> sameMeta c c'"
  by (auto simp: putBlock_def sameMeta_def split: if_splits option.splits)

lemma removeBlock_sameMeta: "removeBlock c x y = Some c' \<Longrightarrow> sameMeta c c'"
  by (auto simp: removeBlock_def sameMeta_def split: if_splits option.splits)

lemma removeBlock_maps: "removeBlock c x y = Some c' \<Longrightarrow> hWords c' = hWords c \<and> vWords c' = vWords c"
  by (auto simp: removeBlock_def split: if_splits option.splits)

lemma removeLetters_sameMeta:
  "removeLetters c d x y n = Some c' \<Longrightarrow> sameMeta c c'"
proof (induction n arbitrary: c x y)
  case 0
  then show ?case by (simp add: sameMeta_def)
next
  case (Suc n)
  show ?case
  proof (cases d)
    case Horizontal
    from Suc.prems obtain c1 where
      r: "removeLetters c1 d x (y + 1) n = Some c'" and m: "sameMeta c c1"
      unfolding Horizontal by (auto simp: sameMeta_def split: option.splits if_splits)
    from Suc.IH[OF r] m show ?thesis by (simp add: sameMeta_def)
  next
    case Vertical
    from Suc.prems obtain c1 where
      r: "removeLetters c1 d (x + 1) y n = Some c'" and m: "sameMeta c c1"
      unfolding Vertical by (auto simp: sameMeta_def split: option.splits if_splits)
    from Suc.IH[OF r] m show ?thesis by (simp add: sameMeta_def)
  qed
qed

lemma putWord_unfold:
  assumes "usedWords c w \<noteq> Some True"
  shows "putWord c w x y d =
    (case putLetters ((counted d c)\<lparr>usedWords := (usedWords c)(w \<mapsto> True),
                                     placements := placements c @ [placement w x y d]\<rparr>)
            d (stamp d c) x y w of
       None \<Rightarrow> None
     | Some c3 \<Rightarrow>
         (case putBlock c3 (fst (beforeCell d x y)) (snd (beforeCell d x y)) of
            None \<Rightarrow> None
          | Some c4 \<Rightarrow> putBlock c4 (fst (afterCell d x y (length w)))
                                   (snd (afterCell d x y (length w)))))"
  using assms
  by (cases d)
     (simp_all add: putWord_def Let_def counted_def stamp_def placement_def beforeCell_def
        afterCell_def spanCell_def split: option.splits)

lemma removeWord_unfold:
  "removeWord c w x y d =
    (case removeLetters (c\<lparr>usedWords := (usedWords c)(w := None)\<rparr>) d x y (length w) of
       None \<Rightarrow> None
     | Some c1 \<Rightarrow>
         (case removeBlock c1 (fst (beforeCell d x y)) (snd (beforeCell d x y)) of
            None \<Rightarrow> None
          | Some c2 \<Rightarrow> removeBlock c2 (fst (afterCell d x y (length w)))
                                      (snd (afterCell d x y (length w)))))"
  by (cases d)
     (simp_all add: removeWord_def beforeCell_def afterCell_def spanCell_def split: option.splits)

lemma sameMeta_valid:
  "sameMeta c c' \<Longrightarrow> isValidPosition c' x y = isValidPosition c x y"
  by (simp add: sameMeta_def isValidPosition_def)

lemma putWord_used: "usedWords c w = Some True \<Longrightarrow> putWord c w x y d = Some c"
  by (simp add: putWord_def)

lemma putWord_frame:
  assumes "putWord c w x y d = Some c'" "usedWords c w \<noteq> Some True"
  shows "placements c' = placements c @ [placement w x y d]"
    "usedWords c' = (usedWords c)(w \<mapsto> True)"
    "width c' = width c" "height c' = height c"
proof -
  from assms obtain c3 c4 where
    a: "putLetters ((counted d c)\<lparr>usedWords := (usedWords c)(w \<mapsto> True),
                                     placements := placements c @ [placement w x y d]\<rparr>)
            d (stamp d c) x y w = Some c3"
    and b: "putBlock c3 (fst (beforeCell d x y)) (snd (beforeCell d x y)) = Some c4"
    and e: "putBlock c4 (fst (afterCell d x y (length w))) (snd (afterCell d x y (length w))) = Some c'"
    unfolding putWord_unfold[OF assms(2)] by (auto split: option.splits)
  from putLetters_sameMeta[OF a] putBlock_sameMeta[OF b] putBlock_sameMeta[OF e]
  show "placements c' = placements c @ [placement w x y d]"
    "usedWords c' = (usedWords c)(w \<mapsto> True)"
    "width c' = width c" "height c' = height c"
    by (cases d; simp add: sameMeta_def counted_def)+
qed

lemma putWord_counts:
  assumes "putWord c w x y d = Some c'" "usedWords c w \<noteq> Some True"
  shows "hCount c' = (if d = Horizontal then hCount c + 1 else hCount c)"
    "vCount c' = (if d = Vertical then vCount c + 1 else vCount c)"
proof -
  from assms obtain c3 c4 where
    a: "putLetters ((counted d c)\<lparr>usedWords := (usedWords c)(w \<mapsto> True),
                                     placements := placements c @ [placement w x y d]\<rparr>)
            d (stamp d c) x y w = Some c3"
    and b: "putBlock c3 (fst (beforeCell d x y)) (snd (beforeCell d x y)) = Some c4"
    and e: "putBlock c4 (fst (afterCell d x y (length w))) (snd (afterCell d x y (length w))) = Some c'"
    unfolding putWord_unfold[OF assms(2)] by (auto split: option.splits)
  from putLetters_sameMeta[OF a] putBlock_sameMeta[OF b] putBlock_sameMeta[OF e]
  show "hCount c' = (if d = Horizontal then hCount c + 1 else hCount c)"
    "vCount c' = (if d = Vertical then vCount c + 1 else vCount c)"
    by (cases d; simp add: sameMeta_def counted_def)+
qed

lemma removeWord_frame:
  assumes "removeWord c w x y d = Some c'"
  shows "placements c' = placements c" "usedWords c' = (usedWords c)(w := None)"
    "width c' = width c" "height c' = height c" "hCount c' = hCount c" "vCount c' = vCount c"
proof -
  from assms obtain c1 c2 where
    a: "removeLetters (c\<lparr>usedWords := (usedWords c)(w := None)\<rparr>) d x y (length w) = Some c1"
    and b: "removeBlock c1 (fst (beforeCell d x y)) (snd (beforeCell d x y)) = Some c2"
    and e: "removeBlock c2 (fst (afterCell d x y (length w))) (snd (afterCell d x y (length w))) = Some c'"
    unfolding removeWord_unfold by (auto split: option.splits)
  from removeLetters_sameMeta[OF a] removeBlock_sameMeta[OF b] removeBlock_sameMeta[OF e]
  show "placements c' = placements c" "usedWords c' = (usedWords c)(w := None)"
    "width c' = width c" "height c' = height c" "hCount c' = hCount c" "vCount c' = vCount c"
    by (simp_all add: sameMeta_def)
qed

subsection \<open>The operations, cell by cell\<close>

lemma putLetters_H:
  assumes "wellFormed c" "spanValid c Horizontal x y (length w)"
  shows "\<exists>c'. putLetters c Horizontal v x y w = Some c' \<and> wellFormed c' \<and>
           sameMeta c c' \<and> vWords c' = vWords c \<and>
           (\<forall>x' y'. isValidPosition c x' y' \<longrightarrow>
              cell (board c') x' y' =
                (if onSpan Horizontal x y (length w) x' y' then w ! nat (y' - y)
                 else cell (board c) x' y') \<and>
              cell (hWords c') x' y' =
                (if onSpan Horizontal x y (length w) x' y' then v
                 else cell (hWords c) x' y'))"
  using assms
proof (induction w arbitrary: c y)
  case Nil
  then show ?case by (simp add: onSpan_def sameMeta_def)
next
  case (Cons ch rest)
  from Cons.prems(2) have v0: "isValidPosition c x y"
    and sv: "spanValid c Horizontal x (y + 1) (length rest)"
    by (simp_all add: spanValid_H_Suc)
  from wf_store_valid[OF Cons.prems(1) v0] obtain b h where
    b: "store (board c) x y ch = Some b" and h: "store (hWords c) x y v = Some h"
    by blast
  let ?c1 = "c\<lparr>board := b, hWords := h\<rparr>"
  have wf1: "wellFormed ?c1"
    using Cons.prems(1) store_shaped[OF b] store_shaped[OF h] by (simp add: wellFormed_def)
  have sv1: "spanValid ?c1 Horizontal x (y + 1) (length rest)"
    using sv by (simp add: spanValid_def isValidPosition_def)
  from Cons.IH[OF wf1 sv1] obtain c' where
    IH: "putLetters ?c1 Horizontal v x (y + 1) rest = Some c' \<and> wellFormed c' \<and>
      sameMeta ?c1 c' \<and> vWords c' = vWords ?c1 \<and>
      (\<forall>x' y'. isValidPosition ?c1 x' y' \<longrightarrow>
        cell (board c') x' y' =
          (if onSpan Horizontal x (y + 1) (length rest) x' y' then rest ! nat (y' - (y + 1))
           else cell (board ?c1) x' y') \<and>
        cell (hWords c') x' y' =
          (if onSpan Horizontal x (y + 1) (length rest) x' y' then v
           else cell (hWords ?c1) x' y'))" ..
  from IH have p: "putLetters ?c1 Horizontal v x (y + 1) rest = Some c'" and wf': "wellFormed c'"
    and eq: "sameMeta ?c1 c'" "vWords c' = vWords ?c1" by simp_all
  from IH have cells: "cell (board c') x' y' =
          (if onSpan Horizontal x (y + 1) (length rest) x' y' then rest ! nat (y' - (y + 1))
           else cell (board ?c1) x' y') \<and>
        cell (hWords c') x' y' =
          (if onSpan Horizontal x (y + 1) (length rest) x' y' then v
           else cell (hWords ?c1) x' y')" if "isValidPosition ?c1 x' y'" for x' y'
    using that by blast
  have put: "putLetters c Horizontal v x y (ch # rest) = Some c'"
    using b h p by simp
  have eq': "sameMeta c c'" "vWords c' = vWords c"
    using eq by (simp_all add: sameMeta_def)
  have fin: "cell (board c') x' y' =
          (if onSpan Horizontal x y (length (ch # rest)) x' y' then (ch # rest) ! nat (y' - y)
           else cell (board c) x' y') \<and>
        cell (hWords c') x' y' =
          (if onSpan Horizontal x y (length (ch # rest)) x' y' then v
           else cell (hWords c) x' y')" if val: "isValidPosition c x' y'" for x' y'
  proof -
    have val1: "isValidPosition ?c1 x' y'" using val by (simp add: isValidPosition_def)
    have nn: "0 \<le> x'" "0 \<le> y'" using val by (simp_all add: isValidPosition_def)
    have cb: "cell b x' y' = (if x' = x \<and> y' = y then ch else cell (board c) x' y')"
      and ch: "cell h x' y' = (if x' = x \<and> y' = y then v else cell (hWords c) x' y')"
      using store_cell[OF b nn] store_cell[OF h nn] by simp_all
    show ?thesis
    proof (cases "x' = x \<and> y' = y")
      case True
      then show ?thesis using cells[OF val1] cb ch by (simp add: onSpan_H)
    next
      case False
      show ?thesis
      proof (cases "onSpan Horizontal x (y + 1) (length rest) x' y'")
        case True
        then have "nat (y' - y) = Suc (nat (y' - (y + 1)))" by (auto simp: onSpan_H)
        then show ?thesis using cells[OF val1] True by (auto simp: onSpan_H)
      next
        case F2: False
        then have "\<not> onSpan Horizontal x y (length (ch # rest)) x' y'"
          using False by (auto simp: onSpan_H)
        then show ?thesis using cells[OF val1] F2 cb ch False by simp
      qed
    qed
  qed
  show ?case
    by (rule exI[of _ c']) (use put wf' eq' fin in simp)
qed

lemma putLetters_V:
  assumes "wellFormed c" "spanValid c Vertical x y (length w)"
  shows "\<exists>c'. putLetters c Vertical v x y w = Some c' \<and> wellFormed c' \<and>
           sameMeta c c' \<and> hWords c' = hWords c \<and>
           (\<forall>x' y'. isValidPosition c x' y' \<longrightarrow>
              cell (board c') x' y' =
                (if onSpan Vertical x y (length w) x' y' then w ! nat (x' - x)
                 else cell (board c) x' y') \<and>
              cell (vWords c') x' y' =
                (if onSpan Vertical x y (length w) x' y' then v
                 else cell (vWords c) x' y'))"
  using assms
proof (induction w arbitrary: c x)
  case Nil
  then show ?case by (simp add: onSpan_def sameMeta_def)
next
  case (Cons ch rest)
  from Cons.prems(2) have v0: "isValidPosition c x y"
    and sv: "spanValid c Vertical (x + 1) y (length rest)"
    by (simp_all add: spanValid_V_Suc)
  from wf_store_valid[OF Cons.prems(1) v0] obtain b h where
    b: "store (board c) x y ch = Some b" and h: "store (vWords c) x y v = Some h"
    by blast
  let ?c1 = "c\<lparr>board := b, vWords := h\<rparr>"
  have wf1: "wellFormed ?c1"
    using Cons.prems(1) store_shaped[OF b] store_shaped[OF h] by (simp add: wellFormed_def)
  have sv1: "spanValid ?c1 Vertical (x + 1) y (length rest)"
    using sv by (simp add: spanValid_def isValidPosition_def)
  from Cons.IH[OF wf1 sv1] obtain c' where
    IH: "putLetters ?c1 Vertical v (x + 1) y rest = Some c' \<and> wellFormed c' \<and>
      sameMeta ?c1 c' \<and> hWords c' = hWords ?c1 \<and>
      (\<forall>x' y'. isValidPosition ?c1 x' y' \<longrightarrow>
        cell (board c') x' y' =
          (if onSpan Vertical (x + 1) y (length rest) x' y' then rest ! nat (x' - (x + 1))
           else cell (board ?c1) x' y') \<and>
        cell (vWords c') x' y' =
          (if onSpan Vertical (x + 1) y (length rest) x' y' then v
           else cell (vWords ?c1) x' y'))" ..
  from IH have p: "putLetters ?c1 Vertical v (x + 1) y rest = Some c'" and wf': "wellFormed c'"
    and eq: "sameMeta ?c1 c'" "hWords c' = hWords ?c1" by simp_all
  from IH have cells: "cell (board c') x' y' =
          (if onSpan Vertical (x + 1) y (length rest) x' y' then rest ! nat (x' - (x + 1))
           else cell (board ?c1) x' y') \<and>
        cell (vWords c') x' y' =
          (if onSpan Vertical (x + 1) y (length rest) x' y' then v
           else cell (vWords ?c1) x' y')" if "isValidPosition ?c1 x' y'" for x' y'
    using that by blast
  have put: "putLetters c Vertical v x y (ch # rest) = Some c'"
    using b h p by simp
  have eq': "sameMeta c c'" "hWords c' = hWords c"
    using eq by (simp_all add: sameMeta_def)
  have fin: "cell (board c') x' y' =
          (if onSpan Vertical x y (length (ch # rest)) x' y' then (ch # rest) ! nat (x' - x)
           else cell (board c) x' y') \<and>
        cell (vWords c') x' y' =
          (if onSpan Vertical x y (length (ch # rest)) x' y' then v
           else cell (vWords c) x' y')" if val: "isValidPosition c x' y'" for x' y'
  proof -
    have val1: "isValidPosition ?c1 x' y'" using val by (simp add: isValidPosition_def)
    have nn: "0 \<le> x'" "0 \<le> y'" using val by (simp_all add: isValidPosition_def)
    have cb: "cell b x' y' = (if x' = x \<and> y' = y then ch else cell (board c) x' y')"
      and ch: "cell h x' y' = (if x' = x \<and> y' = y then v else cell (vWords c) x' y')"
      using store_cell[OF b nn] store_cell[OF h nn] by simp_all
    show ?thesis
    proof (cases "x' = x \<and> y' = y")
      case True
      then show ?thesis using cells[OF val1] cb ch by (simp add: onSpan_V)
    next
      case False
      show ?thesis
      proof (cases "onSpan Vertical (x + 1) y (length rest) x' y'")
        case True
        then have "nat (x' - x) = Suc (nat (x' - (x + 1)))" by (auto simp: onSpan_V)
        then show ?thesis using cells[OF val1] True by (auto simp: onSpan_V)
      next
        case F2: False
        then have "\<not> onSpan Vertical x y (length (ch # rest)) x' y'"
          using False by (auto simp: onSpan_V)
        then show ?thesis using cells[OF val1] F2 cb ch False by simp
      qed
    qed
  qed
  show ?case
    by (rule exI[of _ c']) (use put wf' eq' fin in simp)
qed

lemma removeLetters_H:
  assumes "wellFormed c" "spanValid c Horizontal x y n"
  shows "\<exists>c'. removeLetters c Horizontal x y n = Some c' \<and> wellFormed c' \<and>
           sameMeta c c' \<and> vWords c' = vWords c \<and>
           (\<forall>x' y'. isValidPosition c x' y' \<longrightarrow>
              cell (hWords c') x' y' =
                (if onSpan Horizontal x y n x' y' then 0 else cell (hWords c) x' y') \<and>
              cell (board c') x' y' =
                (if onSpan Horizontal x y n x' y' \<and> cell (vWords c) x' y' = 0 then CHR '' ''
                 else cell (board c) x' y'))"
  using assms
proof (induction n arbitrary: c y)
  case 0
  then show ?case by (simp add: onSpan_def sameMeta_def)
next
  case (Suc n)
  from Suc.prems(2) have v0: "isValidPosition c x y"
    and sv: "spanValid c Horizontal x (y + 1) n"
    by (simp_all add: spanValid_H_Suc)
  from wf_store_valid[OF Suc.prems(1) v0] obtain b h where
    b: "store (board c) x y CHR '' '' = Some b" and h: "store (hWords c) x y 0 = Some h"
    by blast
  have ib: "in_bounds (vWords c) x y"
    using Suc.prems(1) v0 shaped_in_bounds[of "vWords c" "height c" "width c" x y]
    by (simp add: wellFormed_def isValidPosition_def)
  let ?c1 = "if cell (vWords c) x y = 0 then c\<lparr>hWords := h, board := b\<rparr> else c\<lparr>hWords := h\<rparr>"
  have step: "removeLetters c Horizontal x y (Suc n) = removeLetters ?c1 Horizontal x (y + 1) n"
    using b h ib by simp
  have wf1: "wellFormed ?c1"
    using Suc.prems(1) store_shaped[OF b] store_shaped[OF h] by (simp add: wellFormed_def)
  have sv1: "spanValid ?c1 Horizontal x (y + 1) n"
    using sv by (simp add: spanValid_def isValidPosition_def)
  have m1: "sameMeta c ?c1" "vWords ?c1 = vWords c" by (simp_all add: sameMeta_def)
  from Suc.IH[OF wf1 sv1] obtain c' where
    IH: "removeLetters ?c1 Horizontal x (y + 1) n = Some c' \<and> wellFormed c' \<and>
      sameMeta ?c1 c' \<and> vWords c' = vWords ?c1 \<and>
      (\<forall>x' y'. isValidPosition ?c1 x' y' \<longrightarrow>
         cell (hWords c') x' y' =
           (if onSpan Horizontal x (y + 1) n x' y' then 0 else cell (hWords ?c1) x' y') \<and>
         cell (board c') x' y' =
           (if onSpan Horizontal x (y + 1) n x' y' \<and> cell (vWords ?c1) x' y' = 0 then CHR '' ''
            else cell (board ?c1) x' y'))" ..
  from IH have p: "removeLetters ?c1 Horizontal x (y + 1) n = Some c'" and wf': "wellFormed c'"
    and eq: "sameMeta ?c1 c'" "vWords c' = vWords ?c1" by simp_all
  have eq': "sameMeta c c'" "vWords c' = vWords c"
    using eq m1 by (simp_all add: sameMeta_def)
  have fin: "cell (hWords c') x' y' =
           (if onSpan Horizontal x y (Suc n) x' y' then 0 else cell (hWords c) x' y') \<and>
         cell (board c') x' y' =
           (if onSpan Horizontal x y (Suc n) x' y' \<and> cell (vWords c) x' y' = 0 then CHR '' ''
            else cell (board c) x' y')" if val: "isValidPosition c x' y'" for x' y'
  proof -
    have val1: "isValidPosition ?c1 x' y'" using val by (simp add: isValidPosition_def)
    from IH val1 have cells:
      "cell (hWords c') x' y' =
           (if onSpan Horizontal x (y + 1) n x' y' then 0 else cell (hWords ?c1) x' y')"
      "cell (board c') x' y' =
           (if onSpan Horizontal x (y + 1) n x' y' \<and> cell (vWords c) x' y' = 0 then CHR '' ''
            else cell (board ?c1) x' y')"
      using m1(2) by simp_all
    have nn: "0 \<le> x'" "0 \<le> y'" using val by (simp_all add: isValidPosition_def)
    have ch: "cell (hWords ?c1) x' y' = (if x' = x \<and> y' = y then 0 else cell (hWords c) x' y')"
      using store_cell[OF h nn] by (auto split: if_splits)
    have cb: "cell (board ?c1) x' y' =
        (if x' = x \<and> y' = y \<and> cell (vWords c) x y = 0 then CHR '' '' else cell (board c) x' y')"
      using store_cell[OF b nn] by (auto split: if_splits)
    have os: "onSpan Horizontal x y (Suc n) x' y' \<longleftrightarrow>
              (x' = x \<and> y' = y) \<or> onSpan Horizontal x (y + 1) n x' y'"
      by (auto simp: onSpan_H)
    show ?thesis unfolding cells ch cb os by auto
  qed
  show ?case
    by (rule exI[of _ c']) (use step p wf' eq' fin in simp)
qed

lemma removeLetters_V:
  assumes "wellFormed c" "spanValid c Vertical x y n"
  shows "\<exists>c'. removeLetters c Vertical x y n = Some c' \<and> wellFormed c' \<and>
           sameMeta c c' \<and> hWords c' = hWords c \<and>
           (\<forall>x' y'. isValidPosition c x' y' \<longrightarrow>
              cell (vWords c') x' y' =
                (if onSpan Vertical x y n x' y' then 0 else cell (vWords c) x' y') \<and>
              cell (board c') x' y' =
                (if onSpan Vertical x y n x' y' \<and> cell (hWords c) x' y' = 0 then CHR '' ''
                 else cell (board c) x' y'))"
  using assms
proof (induction n arbitrary: c x)
  case 0
  then show ?case by (simp add: onSpan_def sameMeta_def)
next
  case (Suc n)
  from Suc.prems(2) have v0: "isValidPosition c x y"
    and sv: "spanValid c Vertical (x + 1) y n"
    by (simp_all add: spanValid_V_Suc)
  from wf_store_valid[OF Suc.prems(1) v0] obtain b h where
    b: "store (board c) x y CHR '' '' = Some b" and h: "store (vWords c) x y 0 = Some h"
    by blast
  have ib: "in_bounds (hWords c) x y"
    using Suc.prems(1) v0 shaped_in_bounds[of "hWords c" "height c" "width c" x y]
    by (simp add: wellFormed_def isValidPosition_def)
  let ?c1 = "if cell (hWords c) x y = 0 then c\<lparr>vWords := h, board := b\<rparr> else c\<lparr>vWords := h\<rparr>"
  have step: "removeLetters c Vertical x y (Suc n) = removeLetters ?c1 Vertical (x + 1) y n"
    using b h ib by simp
  have wf1: "wellFormed ?c1"
    using Suc.prems(1) store_shaped[OF b] store_shaped[OF h] by (simp add: wellFormed_def)
  have sv1: "spanValid ?c1 Vertical (x + 1) y n"
    using sv by (simp add: spanValid_def isValidPosition_def)
  have m1: "sameMeta c ?c1" "hWords ?c1 = hWords c" by (simp_all add: sameMeta_def)
  from Suc.IH[OF wf1 sv1] obtain c' where
    IH: "removeLetters ?c1 Vertical (x + 1) y n = Some c' \<and> wellFormed c' \<and>
      sameMeta ?c1 c' \<and> hWords c' = hWords ?c1 \<and>
      (\<forall>x' y'. isValidPosition ?c1 x' y' \<longrightarrow>
         cell (vWords c') x' y' =
           (if onSpan Vertical (x + 1) y n x' y' then 0 else cell (vWords ?c1) x' y') \<and>
         cell (board c') x' y' =
           (if onSpan Vertical (x + 1) y n x' y' \<and> cell (hWords ?c1) x' y' = 0 then CHR '' ''
            else cell (board ?c1) x' y'))" ..
  from IH have p: "removeLetters ?c1 Vertical (x + 1) y n = Some c'" and wf': "wellFormed c'"
    and eq: "sameMeta ?c1 c'" "hWords c' = hWords ?c1" by simp_all
  have eq': "sameMeta c c'" "hWords c' = hWords c"
    using eq m1 by (simp_all add: sameMeta_def)
  have fin: "cell (vWords c') x' y' =
           (if onSpan Vertical x y (Suc n) x' y' then 0 else cell (vWords c) x' y') \<and>
         cell (board c') x' y' =
           (if onSpan Vertical x y (Suc n) x' y' \<and> cell (hWords c) x' y' = 0 then CHR '' ''
            else cell (board c) x' y')" if val: "isValidPosition c x' y'" for x' y'
  proof -
    have val1: "isValidPosition ?c1 x' y'" using val by (simp add: isValidPosition_def)
    from IH val1 have cells:
      "cell (vWords c') x' y' =
           (if onSpan Vertical (x + 1) y n x' y' then 0 else cell (vWords ?c1) x' y')"
      "cell (board c') x' y' =
           (if onSpan Vertical (x + 1) y n x' y' \<and> cell (hWords c) x' y' = 0 then CHR '' ''
            else cell (board ?c1) x' y')"
      using m1(2) by simp_all
    have nn: "0 \<le> x'" "0 \<le> y'" using val by (simp_all add: isValidPosition_def)
    have ch: "cell (vWords ?c1) x' y' = (if x' = x \<and> y' = y then 0 else cell (vWords c) x' y')"
      using store_cell[OF h nn] by (auto split: if_splits)
    have cb: "cell (board ?c1) x' y' =
        (if x' = x \<and> y' = y \<and> cell (hWords c) x y = 0 then CHR '' '' else cell (board c) x' y')"
      using store_cell[OF b nn] by (auto split: if_splits)
    have os: "onSpan Vertical x y (Suc n) x' y' \<longleftrightarrow>
              (x' = x \<and> y' = y) \<or> onSpan Vertical (x + 1) y n x' y'"
      by (auto simp: onSpan_V)
    show ?thesis unfolding cells ch cb os by auto
  qed
  show ?case
    by (rule exI[of _ c']) (use step p wf' eq' fin in simp)
qed

lemma putLetters_spec:
  assumes "wellFormed c" "spanValid c d x y (length w)"
  shows "\<exists>c'. putLetters c d v x y w = Some c' \<and> wellFormed c' \<and>
           sameMeta c c' \<and> other d c' = other d c \<and>
           (\<forall>x' y'. isValidPosition c x' y' \<longrightarrow>
              cell (board c') x' y' =
                (if onSpan d x y (length w) x' y' then w ! spanIndex d x y x' y'
                 else cell (board c) x' y') \<and>
              cell (own d c') x' y' =
                (if onSpan d x y (length w) x' y' then v else cell (own d c) x' y'))"
proof (cases d)
  case Horizontal
  show ?thesis using putLetters_H[OF assms[unfolded Horizontal], of v]
    unfolding Horizontal by (simp only: own_def other_def spanIndex_def Direction.case)
next
  case Vertical
  show ?thesis using putLetters_V[OF assms[unfolded Vertical], of v]
    unfolding Vertical by (simp only: own_def other_def spanIndex_def Direction.case)
qed

lemma removeLetters_spec:
  assumes "wellFormed c" "spanValid c d x y n"
  shows "\<exists>c'. removeLetters c d x y n = Some c' \<and> wellFormed c' \<and>
           sameMeta c c' \<and> other d c' = other d c \<and>
           (\<forall>x' y'. isValidPosition c x' y' \<longrightarrow>
              cell (own d c') x' y' =
                (if onSpan d x y n x' y' then 0 else cell (own d c) x' y') \<and>
              cell (board c') x' y' =
                (if onSpan d x y n x' y' \<and> cell (other d c) x' y' = 0 then CHR '' ''
                 else cell (board c) x' y'))"
proof (cases d)
  case Horizontal
  show ?thesis using removeLetters_H[OF assms[unfolded Horizontal]]
    unfolding Horizontal by (simp only: own_def other_def Direction.case)
next
  case Vertical
  show ?thesis using removeLetters_V[OF assms[unfolded Vertical]]
    unfolding Vertical by (simp only: own_def other_def Direction.case)
qed

lemma putBlock_spec:
  assumes "wellFormed c"
  shows "\<exists>c'. putBlock c x y = Some c' \<and> wellFormed c' \<and> sameMeta c c' \<and>
           hWords c' = hWords c \<and> vWords c' = vWords c \<and>
           (\<forall>x' y'. isValidPosition c x' y' \<longrightarrow>
              cell (board c') x' y' =
                (if x' = x \<and> y' = y then CHR ''*'' else cell (board c) x' y'))"
proof (cases "isValidPosition c x y")
  case True
  from wf_store_valid[OF assms True] obtain b where b: "store (board c) x y CHR ''*'' = Some b"
    by blast
  have "cell b x' y' = (if x' = x \<and> y' = y then CHR ''*'' else cell (board c) x' y')"
    if "isValidPosition c x' y'" for x' y'
    using store_cell[OF b, of x' y'] that by (simp add: isValidPosition_def)
  then show ?thesis
    using True b assms store_shaped[OF b] by (simp add: putBlock_def wellFormed_def sameMeta_def)
next
  case False
  then have "\<not> (x' = x \<and> y' = y)" if "isValidPosition c x' y'" for x' y'
    using that by auto
  then show ?thesis using False assms by (simp add: putBlock_def sameMeta_def)
qed

lemma removeBlock_spec:
  assumes "wellFormed c"
  shows "\<exists>c'. removeBlock c x y = Some c' \<and> wellFormed c' \<and> sameMeta c c' \<and>
           hWords c' = hWords c \<and> vWords c' = vWords c \<and>
           (\<forall>x' y'. isValidPosition c x' y' \<longrightarrow>
              cell (board c') x' y' =
                (if x' = x \<and> y' = y \<and> \<not> hasAdjacentWords c x y then CHR '' ''
                 else cell (board c) x' y'))"
proof (cases "isValidPosition c x y \<and> \<not> hasAdjacentWords c x y")
  case True
  then have v: "isValidPosition c x y" by simp
  from wf_store_valid[OF assms v] obtain b where b: "store (board c) x y CHR '' '' = Some b"
    by blast
  have "cell b x' y' = (if x' = x \<and> y' = y then CHR '' '' else cell (board c) x' y')"
    if "isValidPosition c x' y'" for x' y'
    using store_cell[OF b, of x' y'] that by (simp add: isValidPosition_def)
  then show ?thesis
    using True b assms store_shaped[OF b] by (simp add: removeBlock_def wellFormed_def sameMeta_def)
next
  case False
  then have rb: "removeBlock c x y = Some c" by (auto simp add: removeBlock_def)
  have nc: "cell (board c) x' y' =
      (if x' = x \<and> y' = y \<and> \<not> hasAdjacentWords c x y then CHR '' '' else cell (board c) x' y')"
    if "isValidPosition c x' y'" for x' y'
    using that False by auto
  show ?thesis
    by (rule exI[of _ c]) (use rb assms nc in \<open>simp add: sameMeta_def\<close>)
qed

lemma putWord_spec:
  assumes "wellFormed c" "spanValid c d x y (length w)" "usedWords c w \<noteq> Some True"
  shows "\<exists>c'. putWord c w x y d = Some c' \<and> wellFormed c' \<and>
           width c' = width c \<and> height c' = height c \<and>
           usedWords c' = (usedWords c)(w \<mapsto> True) \<and>
           placements c' = placements c @ [placement w x y d] \<and>
           other d c' = other d c \<and>
           (\<forall>x' y'. isValidPosition c x' y' \<longrightarrow>
              cell (own d c') x' y' =
                (if onSpan d x y (length w) x' y' then stamp d c else cell (own d c) x' y') \<and>
              cell (board c') x' y' =
                (if (x', y') = afterCell d x y (length w) \<or> (x', y') = beforeCell d x y
                 then CHR ''*''
                 else if onSpan d x y (length w) x' y' then w ! spanIndex d x y x' y'
                 else cell (board c) x' y'))"
proof -
  let ?c2 = "(counted d c)\<lparr>usedWords := (usedWords c)(w \<mapsto> True),
                            placements := placements c @ [placement w x y d]\<rparr>"
  have wf2: "wellFormed ?c2" using assms(1) by (cases d) (simp_all add: wellFormed_def counted_def)
  have dims2: "width ?c2 = width c" "height ?c2 = height c"
    by (cases d; simp add: counted_def)+
  have maps2: "board ?c2 = board c" "own d ?c2 = own d c" "other d ?c2 = other d c"
    by (cases d; simp add: counted_def own_def other_def)+
  have sv2: "spanValid ?c2 d x y (length w)"
    using assms(2) dims2 by (simp add: spanValid_def isValidPosition_def)
  from putLetters_spec[OF wf2 sv2, of "stamp d c"] obtain c3 where
    c3: "putLetters ?c2 d (stamp d c) x y w = Some c3 \<and> wellFormed c3 \<and>
           sameMeta ?c2 c3 \<and> other d c3 = other d ?c2 \<and>
           (\<forall>x' y'. isValidPosition ?c2 x' y' \<longrightarrow>
              cell (board c3) x' y' =
                (if onSpan d x y (length w) x' y' then w ! spanIndex d x y x' y'
                 else cell (board ?c2) x' y') \<and>
              cell (own d c3) x' y' =
                (if onSpan d x y (length w) x' y' then stamp d c else cell (own d ?c2) x' y'))" ..
  then have wf3: "wellFormed c3" by simp
  from putBlock_spec[OF wf3, of "fst (beforeCell d x y)" "snd (beforeCell d x y)"]
  obtain c4 where
    c4: "putBlock c3 (fst (beforeCell d x y)) (snd (beforeCell d x y)) = Some c4 \<and> wellFormed c4 \<and>
         sameMeta c3 c4 \<and> hWords c4 = hWords c3 \<and> vWords c4 = vWords c3 \<and>
           (\<forall>x' y'. isValidPosition c3 x' y' \<longrightarrow>
              cell (board c4) x' y' =
                (if x' = fst (beforeCell d x y) \<and> y' = snd (beforeCell d x y) then CHR ''*''
                 else cell (board c3) x' y'))" ..
  then have wf4: "wellFormed c4" by simp
  from putBlock_spec[OF wf4, of "fst (afterCell d x y (length w))" "snd (afterCell d x y (length w))"]
  obtain c5 where
    c5: "putBlock c4 (fst (afterCell d x y (length w))) (snd (afterCell d x y (length w))) = Some c5
         \<and> wellFormed c5 \<and>
         sameMeta c4 c5 \<and> hWords c5 = hWords c4 \<and> vWords c5 = vWords c4 \<and>
           (\<forall>x' y'. isValidPosition c4 x' y' \<longrightarrow>
              cell (board c5) x' y' =
                (if x' = fst (afterCell d x y (length w)) \<and> y' = snd (afterCell d x y (length w))
                 then CHR ''*''
                 else cell (board c4) x' y'))" ..
  have pw: "putWord c w x y d = Some c5"
    using c3 c4 c5 by (simp add: putWord_unfold[OF assms(3)])
  have m3: "sameMeta ?c2 c3" and m4: "sameMeta c3 c4" and m5: "sameMeta c4 c5"
    using c3 c4 c5 by simp_all
  have meta: "width c5 = width c" "height c5 = height c"
    "usedWords c5 = (usedWords c)(w \<mapsto> True)"
    "placements c5 = placements c @ [placement w x y d]"
    using m3 m4 m5 dims2 by (simp_all add: sameMeta_def)
  have oth: "other d c5 = other d c" "own d c5 = own d c3"
    using c3 c4 c5 maps2 by (cases d; simp add: other_def own_def)+
  have cells: "cell (own d c5) x' y' =
                (if onSpan d x y (length w) x' y' then stamp d c else cell (own d c) x' y') \<and>
              cell (board c5) x' y' =
                (if (x', y') = afterCell d x y (length w) \<or> (x', y') = beforeCell d x y
                 then CHR ''*''
                 else if onSpan d x y (length w) x' y' then w ! spanIndex d x y x' y'
                 else cell (board c) x' y')" if val: "isValidPosition c x' y'" for x' y'
  proof -
    have v2: "isValidPosition ?c2 x' y'" using val dims2 by (simp add: isValidPosition_def)
    have v3: "isValidPosition c3 x' y'" using v2 sameMeta_valid[OF m3] by simp
    have v4: "isValidPosition c4 x' y'" using v3 sameMeta_valid[OF m4] by simp
    have b3: "cell (board c3) x' y' =
                (if onSpan d x y (length w) x' y' then w ! spanIndex d x y x' y'
                 else cell (board c) x' y')"
      and o3: "cell (own d c3) x' y' =
                (if onSpan d x y (length w) x' y' then stamp d c else cell (own d c) x' y')"
      using c3 v2 maps2 by simp_all
    have b4: "cell (board c4) x' y' =
                (if x' = fst (beforeCell d x y) \<and> y' = snd (beforeCell d x y) then CHR ''*''
                 else cell (board c3) x' y')"
      using c4 v3 by simp
    have b5: "cell (board c5) x' y' =
                (if x' = fst (afterCell d x y (length w)) \<and> y' = snd (afterCell d x y (length w))
                 then CHR ''*''
                 else cell (board c4) x' y')"
      using c5 v4 by simp
    show ?thesis unfolding oth(2) o3 b5 b4 b3 by (auto simp: prod_eq_iff)
  qed
  have wf5: "wellFormed c5" using c5 by simp
  show ?thesis
    by (rule exI[of _ c5]) (use pw wf5 meta oth(1) cells in simp)
qed

lemma removeWord_spec:
  assumes "wellFormed c" "spanValid c d x y (length w)"
  shows "\<exists>c'. removeWord c w x y d = Some c' \<and> wellFormed c' \<and>
           width c' = width c \<and> height c' = height c \<and>
           usedWords c' = (usedWords c)(w := None) \<and>
           placements c' = placements c \<and> hCount c' = hCount c \<and> vCount c' = vCount c \<and>
           other d c' = other d c \<and>
           (\<forall>x' y'. isValidPosition c x' y' \<longrightarrow>
              cell (own d c') x' y' =
                (if onSpan d x y (length w) x' y' then 0 else cell (own d c) x' y') \<and>
              (if onSpan d x y (length w) x' y'
               then cell (board c') x' y' =
                      (if cell (other d c) x' y' = 0 then CHR '' '' else cell (board c) x' y')
               else cell (board c') x' y' = cell (board c) x' y' \<or>
                    (cell (board c') x' y' = CHR '' '' \<and>
                     ((x', y') = beforeCell d x y \<or> (x', y') = afterCell d x y (length w)))))"
proof -
  let ?c0 = "c\<lparr>usedWords := (usedWords c)(w := None)\<rparr>"
  let ?n = "length w"
  have wf0: "wellFormed ?c0" using assms(1) by (simp add: wellFormed_def)
  have maps0: "board ?c0 = board c" "own d ?c0 = own d c" "other d ?c0 = other d c"
    by (cases d; simp add: own_def other_def)+
  have sv0: "spanValid ?c0 d x y ?n"
    using assms(2) by (simp add: spanValid_def isValidPosition_def)
  from removeLetters_spec[OF wf0 sv0] obtain c1 where
    c1: "removeLetters ?c0 d x y ?n = Some c1 \<and> wellFormed c1 \<and>
           sameMeta ?c0 c1 \<and> other d c1 = other d ?c0 \<and>
           (\<forall>x' y'. isValidPosition ?c0 x' y' \<longrightarrow>
              cell (own d c1) x' y' =
                (if onSpan d x y ?n x' y' then 0 else cell (own d ?c0) x' y') \<and>
              cell (board c1) x' y' =
                (if onSpan d x y ?n x' y' \<and> cell (other d ?c0) x' y' = 0 then CHR '' ''
                 else cell (board ?c0) x' y'))" ..
  then have wf1: "wellFormed c1" by simp
  from removeBlock_spec[OF wf1, of "fst (beforeCell d x y)" "snd (beforeCell d x y)"]
  obtain c2 where
    c2: "removeBlock c1 (fst (beforeCell d x y)) (snd (beforeCell d x y)) = Some c2 \<and> wellFormed c2 \<and>
         sameMeta c1 c2 \<and> hWords c2 = hWords c1 \<and> vWords c2 = vWords c1 \<and>
           (\<forall>x' y'. isValidPosition c1 x' y' \<longrightarrow>
              cell (board c2) x' y' =
                (if x' = fst (beforeCell d x y) \<and> y' = snd (beforeCell d x y) \<and>
                    \<not> hasAdjacentWords c1 (fst (beforeCell d x y)) (snd (beforeCell d x y))
                 then CHR '' '' else cell (board c1) x' y'))" ..
  then have wf2: "wellFormed c2" by simp
  from removeBlock_spec[OF wf2, of "fst (afterCell d x y ?n)" "snd (afterCell d x y ?n)"]
  obtain c3 where
    c3: "removeBlock c2 (fst (afterCell d x y ?n)) (snd (afterCell d x y ?n)) = Some c3 \<and> wellFormed c3 \<and>
         sameMeta c2 c3 \<and> hWords c3 = hWords c2 \<and> vWords c3 = vWords c2 \<and>
           (\<forall>x' y'. isValidPosition c2 x' y' \<longrightarrow>
              cell (board c3) x' y' =
                (if x' = fst (afterCell d x y ?n) \<and> y' = snd (afterCell d x y ?n) \<and>
                    \<not> hasAdjacentWords c2 (fst (afterCell d x y ?n)) (snd (afterCell d x y ?n))
                 then CHR '' '' else cell (board c2) x' y'))" ..
  have rw: "removeWord c w x y d = Some c3"
    using c1 c2 c3 by (simp add: removeWord_unfold)
  have m1: "sameMeta ?c0 c1" and m2: "sameMeta c1 c2" and m3: "sameMeta c2 c3"
    using c1 c2 c3 by simp_all
  have meta: "width c3 = width c" "height c3 = height c"
    "usedWords c3 = (usedWords c)(w := None)"
    "placements c3 = placements c" "hCount c3 = hCount c" "vCount c3 = vCount c"
    using m1 m2 m3 by (simp_all add: sameMeta_def)
  have oth: "other d c3 = other d c" "own d c3 = own d c1"
    using c1 c2 c3 maps0 by (cases d; simp add: other_def own_def)+
  have cells: "cell (own d c3) x' y' =
                (if onSpan d x y ?n x' y' then 0 else cell (own d c) x' y') \<and>
              (if onSpan d x y ?n x' y'
               then cell (board c3) x' y' =
                      (if cell (other d c) x' y' = 0 then CHR '' '' else cell (board c) x' y')
               else cell (board c3) x' y' = cell (board c) x' y' \<or>
                    (cell (board c3) x' y' = CHR '' '' \<and>
                     ((x', y') = beforeCell d x y \<or> (x', y') = afterCell d x y ?n)))"
    if val: "isValidPosition c x' y'" for x' y'
  proof -
    have v0: "isValidPosition ?c0 x' y'" using val by (simp add: isValidPosition_def)
    have v1: "isValidPosition c1 x' y'" using v0 sameMeta_valid[OF m1] by simp
    have v2: "isValidPosition c2 x' y'" using v1 sameMeta_valid[OF m2] by simp
    have o1: "cell (own d c1) x' y' =
                (if onSpan d x y ?n x' y' then 0 else cell (own d c) x' y')"
      and b1: "cell (board c1) x' y' =
                (if onSpan d x y ?n x' y' \<and> cell (other d c) x' y' = 0 then CHR '' ''
                 else cell (board c) x' y')"
      using c1 v0 maps0 by simp_all
    have b2: "cell (board c2) x' y' =
                (if x' = fst (beforeCell d x y) \<and> y' = snd (beforeCell d x y) \<and>
                    \<not> hasAdjacentWords c1 (fst (beforeCell d x y)) (snd (beforeCell d x y))
                 then CHR '' '' else cell (board c1) x' y')"
      using c2 v1 by simp
    have b3: "cell (board c3) x' y' =
                (if x' = fst (afterCell d x y ?n) \<and> y' = snd (afterCell d x y ?n) \<and>
                    \<not> hasAdjacentWords c2 (fst (afterCell d x y ?n)) (snd (afterCell d x y ?n))
                 then CHR '' '' else cell (board c2) x' y')"
      using c3 v2 by simp
    show ?thesis
    proof (cases "onSpan d x y ?n x' y'")
      case True
      from onSpan_not_before[OF True] onSpan_not_after[OF True]
      have "\<not> (x' = fst (beforeCell d x y) \<and> y' = snd (beforeCell d x y))"
        "\<not> (x' = fst (afterCell d x y ?n) \<and> y' = snd (afterCell d x y ?n))"
        by (auto simp: prod_eq_iff)
      then show ?thesis unfolding oth(2) o1 b3 b2 b1 using True by auto
    next
      case False
      then show ?thesis unfolding oth(2) o1 b3 b2 b1 by (auto simp: prod_eq_iff)
    qed
  qed
  have wf3: "wellFormed c3" using c3 by simp
  show ?thesis
    by (rule exI[of _ c3]) (use rw wf3 meta oth(1) cells in simp)
qed

lemma removeWord_total:
  assumes "wellFormed t" "spanValid t d x y (length w)"
  shows "\<exists>c'. removeWord t w x y d = Some c' \<and> wellFormed c' \<and> width c' = width t \<and> height c' = height t"
  using removeWord_spec[OF assms] by blast

lemma removeLetters_step:
  assumes "removeLetters c d x y (Suc n) = Some c'"
  shows "\<exists>h c1. store (own d c) x y 0 = Some h \<and> own d c1 = h \<and>
           removeLetters c1 d (fst (spanCell d x y 1)) (snd (spanCell d x y 1)) n = Some c'"
proof (cases d)
  case Horizontal
  from assms obtain h where h: "store (hWords c) x y 0 = Some h"
    unfolding Horizontal by (auto split: option.splits)
  let ?c1 = "if cell (vWords c) x y = 0
             then c\<lparr>hWords := h, board := the (store (board c) x y CHR '' '')\<rparr>
             else c\<lparr>hWords := h\<rparr>"
  have "removeLetters ?c1 Horizontal x (y + 1) n = Some c'"
    using assms h unfolding Horizontal by (auto split: option.splits if_splits)
  moreover have "hWords ?c1 = h" by simp
  ultimately show ?thesis using h unfolding Horizontal
    by (intro exI[of _ h] exI[of _ ?c1]) (simp add: own_def spanCell_def)
next
  case Vertical
  from assms obtain h where h: "store (vWords c) x y 0 = Some h"
    unfolding Vertical by (auto split: option.splits)
  let ?c1 = "if cell (hWords c) x y = 0
             then c\<lparr>vWords := h, board := the (store (board c) x y CHR '' '')\<rparr>
             else c\<lparr>vWords := h\<rparr>"
  have "removeLetters ?c1 Vertical (x + 1) y n = Some c'"
    using assms h unfolding Vertical by (auto split: option.splits if_splits)
  moreover have "vWords ?c1 = h" by simp
  ultimately show ?thesis using h unfolding Vertical
    by (intro exI[of _ h] exI[of _ ?c1]) (simp add: own_def spanCell_def)
qed

lemma removeLetters_keeps_zero:
  "removeLetters c d x y n = Some c' \<Longrightarrow> 0 \<le> a \<Longrightarrow> 0 \<le> b \<Longrightarrow>
   cell (own d c) a b = 0 \<Longrightarrow> cell (own d c') a b = 0"
proof (induction n arbitrary: c x y)
  case 0
  then show ?case by simp
next
  case (Suc n)
  from removeLetters_step[OF Suc.prems(1)] obtain h c1 where
    h: "store (own d c) x y 0 = Some h" and o: "own d c1 = h"
    and r: "removeLetters c1 d (fst (spanCell d x y 1)) (snd (spanCell d x y 1)) n = Some c'"
    by blast
  have "cell (own d c1) a b = 0"
    using store_cell[OF h Suc.prems(2,3)] Suc.prems(4) o by simp
  from Suc.IH[OF r Suc.prems(2,3) this] show ?case .
qed

lemma removeLetters_zeroes:
  "removeLetters c d x y n = Some c' \<Longrightarrow> j < n \<Longrightarrow>
   cell (own d c') (fst (spanCell d x y (int j))) (snd (spanCell d x y (int j))) = 0"
proof (induction n arbitrary: c x y j)
  case 0
  then show ?case by simp
next
  case (Suc n)
  from removeLetters_step[OF Suc.prems(1)] obtain h c1 where
    h: "store (own d c) x y 0 = Some h" and o: "own d c1 = h"
    and r: "removeLetters c1 d (fst (spanCell d x y 1)) (snd (spanCell d x y 1)) n = Some c'"
    by blast
  show ?case
  proof (cases j)
    case 0
    from store_nonneg[OF h] have nn: "0 \<le> x" "0 \<le> y" by simp_all
    have "cell (own d c1) x y = 0" using store_cell[OF h nn] o by simp
    from removeLetters_keeps_zero[OF r nn this] show ?thesis
      by (simp add: 0 spanCell_shift)
  next
    case (Suc i)
    then have "i < n" using Suc.prems(2) by simp
    from Suc.IH[OF r this] show ?thesis unfolding Suc spanCell_Suc .
  qed
qed

lemma removeWord_zeroes:
  assumes "removeWord c w x y d = Some c'" "j < length w"
  shows "cell (own d c') (fst (spanCell d x y (int j))) (snd (spanCell d x y (int j))) = 0"
proof -
  from assms(1) obtain c1 c2 where
    a: "removeLetters (c\<lparr>usedWords := (usedWords c)(w := None)\<rparr>) d x y (length w) = Some c1"
    and b: "removeBlock c1 (fst (beforeCell d x y)) (snd (beforeCell d x y)) = Some c2"
    and e: "removeBlock c2 (fst (afterCell d x y (length w))) (snd (afterCell d x y (length w))) = Some c'"
    unfolding removeWord_unfold by (auto split: option.splits)
  have "own d c' = own d c1"
    using removeBlock_maps[OF b] removeBlock_maps[OF e] by (cases d) (simp_all add: own_def)
  then show ?thesis using removeLetters_zeroes[OF a assms(2)] by simp
qed

subsection \<open>What canBePlaced accepts\<close>

lemma spanFits_Cons_H:
  "spanFits c (ch # rest) x y Horizontal \<longleftrightarrow>
     (cell (board c) x y = CHR '' '' \<or> cell (board c) x y = ch) \<and> spanFits c rest x (y + 1) Horizontal"
  unfolding spanFits_def length_Cons all_less_Suc_shift spanCell_shift
  by (simp add: spanCell_def)

lemma spanFits_Cons_V:
  "spanFits c (ch # rest) x y Vertical \<longleftrightarrow>
     (cell (board c) x y = CHR '' '' \<or> cell (board c) x y = ch) \<and> spanFits c rest (x + 1) y Vertical"
  unfolding spanFits_def length_Cons all_less_Suc_shift spanCell_shift
  by (simp add: spanCell_def)

lemma filter_upt_Suc_shift:
  "length (filter P [0 ..< Suc n]) = (if P 0 then 1 else 0) + length (filter (\<lambda>j. P (Suc j)) [0 ..< n])"
proof -
  have "[0 ..< Suc n] = 0 # map Suc [0 ..< n]"
    by (simp add: upt_conv_Cons map_Suc_upt del: upt_Suc)
  then have "filter P [0 ..< Suc n] = (if P 0 then [0] else []) @ map Suc (filter (\<lambda>j. P (Suc j)) [0 ..< n])"
    by (simp add: filter_map comp_def)
  then show ?thesis by simp
qed

lemma matchingCells_Cons_H:
  "length (matchingCells c (ch # rest) x y Horizontal) =
     (if cell (board c) x y = ch then 1 else 0) + length (matchingCells c rest x (y + 1) Horizontal)"
  unfolding matchingCells_def length_Cons filter_upt_Suc_shift spanCell_shift
  by (simp add: spanCell_def)

lemma matchingCells_Cons_V:
  "length (matchingCells c (ch # rest) x y Vertical) =
     (if cell (board c) x y = ch then 1 else 0) + length (matchingCells c rest (x + 1) y Vertical)"
  unfolding matchingCells_def length_Cons filter_upt_Suc_shift spanCell_shift
  by (simp add: spanCell_def)

lemma scanWord_Some:
  "scanWord c d x y w n = Some m \<Longrightarrow>
     spanValid c d x y (length w) \<and> spanFits c w x y d \<and>
     m = n + int (length (matchingCells c w x y d))"
proof (induction w arbitrary: x y n)
  case Nil
  then show ?case by (simp add: spanValid_def spanFits_def matchingCells_def)
next
  case (Cons ch rest)
  show ?case
  proof (cases d)
    case Horizontal
    from Cons.prems have v: "isValidPosition c x y"
      and f: "cell (board c) x y = CHR '' '' \<or> cell (board c) x y = ch"
      and r: "scanWord c Horizontal x (y + 1) rest
               (if cell (board c) x y = ch then n + 1 else n) = Some m"
      unfolding Horizontal by (auto split: if_splits)
    from Cons.IH[OF r[folded Horizontal]] show ?thesis using v f
      unfolding Horizontal
      by (simp add: spanValid_H_Suc spanFits_Cons_H matchingCells_Cons_H)
  next
    case Vertical
    from Cons.prems have v: "isValidPosition c x y"
      and f: "cell (board c) x y = CHR '' '' \<or> cell (board c) x y = ch"
      and r: "scanWord c Vertical (x + 1) y rest
               (if cell (board c) x y = ch then n + 1 else n) = Some m"
      unfolding Vertical by (auto split: if_splits)
    from Cons.IH[OF r[folded Vertical]] show ?thesis using v f
      unfolding Vertical
      by (simp add: spanValid_V_Suc spanFits_Cons_V matchingCells_Cons_V)
  qed
qed

lemma canBePlaced_accepted:
  assumes "0 \<le> canBePlaced c w x y d"
  shows "spanValid c d x y (length w)" "spanFits c w x y d"
    "canBePlaced c w x y d = int (length (matchingCells c w x y d))"
    "\<not> blocked c (fst (beforeCell d x y)) (snd (beforeCell d x y))"
    "\<not> blocked c (fst (afterCell d x y (length w))) (snd (afterCell d x y (length w)))"
proof -
  from assms obtain m where m: "scanWord c d x y w 0 = Some m"
    by (cases "scanWord c d x y w 0") (auto simp: canBePlaced_def)
  from scanWord_Some[OF m] show "spanValid c d x y (length w)" "spanFits c w x y d" by simp_all
  from assms m show nb: "\<not> blocked c (fst (beforeCell d x y)) (snd (beforeCell d x y))"
    and na: "\<not> blocked c (fst (afterCell d x y (length w))) (snd (afterCell d x y (length w)))"
    by (cases d; auto simp: canBePlaced_def beforeCell_def afterCell_def spanCell_def split: if_splits)+
  from assms m scanWord_Some[OF m] show "canBePlaced c w x y d = int (length (matchingCells c w x y d))"
    by (cases d; auto simp: canBePlaced_def split: if_splits)
qed

lemma accepted_cells:
  assumes "0 \<le> canBePlaced c w x y d" "isValidPosition c x' y'"
  shows "onSpan d x y (length w) x' y' \<Longrightarrow>
           cell (board c) x' y' = CHR '' '' \<or> cell (board c) x' y' = w ! spanIndex d x y x' y'"
    and "(x', y') = beforeCell d x y \<or> (x', y') = afterCell d x y (length w) \<Longrightarrow>
           notLetter (cell (board c) x' y')"
proof -
  assume os: "onSpan d x y (length w) x' y'"
  from canBePlaced_accepted(2)[OF assms(1)] spanIndex_less[OF os] spanCell_spanIndex[OF os]
  show "cell (board c) x' y' = CHR '' '' \<or> cell (board c) x' y' = w ! spanIndex d x y x' y'"
    unfolding spanFits_def by fastforce
next
  assume "(x', y') = beforeCell d x y \<or> (x', y') = afterCell d x y (length w)"
  then show "notLetter (cell (board c) x' y')"
  proof
    assume b: "(x', y') = beforeCell d x y"
    then have "x' = fst (beforeCell d x y)" "y' = snd (beforeCell d x y)"
      by (simp_all add: prod_eq_iff)
    with canBePlaced_accepted(4)[OF assms(1)] assms(2)
    show ?thesis by (auto simp: blocked_def notLetter_def)
  next
    assume b: "(x', y') = afterCell d x y (length w)"
    then have "x' = fst (afterCell d x y (length w))" "y' = snd (afterCell d x y (length w))"
      by (simp_all add: prod_eq_iff)
    with canBePlaced_accepted(5)[OF assms(1)] assms(2)
    show ?thesis by (auto simp: blocked_def notLetter_def)
  qed
qed

lemma too_long_rejected:
  assumes "w \<noteq> []" "width c < int (length w)" "height c < int (length w)"
  shows "canBePlaced c w x y d < 0"
proof (rule ccontr)
  assume "\<not> canBePlaced c w x y d < 0"
  then have acc: "0 \<le> canBePlaced c w x y d" by simp
  from assms(1) have pos: "0 < length w" by simp
  note sv = canBePlaced_accepted(1)[OF acc]
  show False
  proof (cases d)
    case Horizontal
    from sv[unfolded Horizontal spanValid_H, rule_format, of 0]
         sv[unfolded Horizontal spanValid_H, rule_format, of "length w - 1"] pos assms(2)
    show False by (auto simp: isValidPosition_def)
  next
    case Vertical
    from sv[unfolded Vertical spanValid_V, rule_format, of 0]
         sv[unfolded Vertical spanValid_V, rule_format, of "length w - 1"] pos assms(3)
    show False by (auto simp: isValidPosition_def)
  qed
qed

text \<open>What an accepted, effective putWord does, cell by cell.\<close>

lemma putWord_effect:
  assumes "wellFormed c" "0 \<le> canBePlaced c w x y d" "usedWords c w \<noteq> Some True"
  shows "\<exists>c'. putWord c w x y d = Some c' \<and> wellFormed c' \<and>
           width c' = width c \<and> height c' = height c \<and>
           usedWords c' = (usedWords c)(w \<mapsto> True) \<and>
           placements c' = placements c @ [placement w x y d] \<and>
           other d c' = other d c \<and>
           (\<forall>x' y'. isValidPosition c x' y' \<longrightarrow>
              cell (own d c') x' y' =
                (if onSpan d x y (length w) x' y' then stamp d c else cell (own d c) x' y') \<and>
              cell (board c') x' y' =
                (if (x', y') = afterCell d x y (length w) \<or> (x', y') = beforeCell d x y
                 then CHR ''*''
                 else if onSpan d x y (length w) x' y' then w ! spanIndex d x y x' y'
                 else cell (board c) x' y'))"
  using putWord_spec[OF assms(1) canBePlaced_accepted(1)[OF assms(2)] assms(3)] .

lemma putWord_wf:
  assumes "wellFormed c" "0 \<le> canBePlaced c w x y d" "putWord c w x y d = Some c'"
  shows "wellFormed c' \<and> width c' = width c \<and> height c' = height c"
proof (cases "usedWords c w = Some True")
  case True
  then show ?thesis using assms(1,3) by (simp add: putWord_def)
next
  case False
  from putWord_effect[OF assms(1,2) False] assms(3) show ?thesis by auto
qed

lemma putWord_total:
  assumes "wellFormed c" "0 \<le> canBePlaced c w x y d"
  shows "\<exists>c'. putWord c w x y d = Some c'"
proof (cases "usedWords c w = Some True")
  case True
  then show ?thesis by (simp add: putWord_def)
next
  case False
  from putWord_effect[OF assms False] show ?thesis by blast
qed

subsection \<open>The search for the best position\<close>

lemma bestScore_ge: "mx \<le> bestScore c w ps mx"
proof (induction ps arbitrary: mx)
  case Nil
  then show ?case by simp
next
  case (Cons p ps)
  have "mx \<le> (if 0 \<le> score c w p \<and> mx < score c w p then score c w p else mx)" by simp
  also have "\<dots> \<le> bestScore c w (p # ps) mx" using Cons.IH by simp
  finally show ?case .
qed

lemma bestScore_upper:
  "q \<in> set ps \<Longrightarrow> 0 \<le> score c w q \<Longrightarrow> score c w q \<le> bestScore c w ps mx"
proof (induction ps arbitrary: mx)
  case Nil
  then show ?case by simp
next
  case (Cons p ps)
  let ?m = "if 0 \<le> score c w p \<and> mx < score c w p then score c w p else mx"
  show ?case
  proof (cases "q = p")
    case True
    have "score c w q \<le> ?m" using True Cons.prems(2) by simp
    also have "\<dots> \<le> bestScore c w ps ?m" by (rule bestScore_ge)
    finally show ?thesis by simp
  next
    case False
    then have "q \<in> set ps" using Cons.prems(1) by simp
    from Cons.IH[OF this Cons.prems(2)] show ?thesis by simp
  qed
qed

lemma bestScore_attained:
  "bestScore c w ps mx = mx \<or>
   (\<exists>q \<in> set ps. 0 \<le> score c w q \<and> score c w q = bestScore c w ps mx)"
proof (induction ps arbitrary: mx)
  case Nil
  then show ?case by simp
next
  case (Cons p ps)
  let ?m = "if 0 \<le> score c w p \<and> mx < score c w p then score c w p else mx"
  from Cons.IH[of ?m] show ?case by (auto split: if_splits)
qed

text \<open>The loop's state after the candidates \<open>ps\<close>, started from \<open>(best, mx)\<close>.\<close>

lemma fold_tryPosition:
  "fold (tryPosition c w) ps (best, mx) =
     ((if bestScore c w ps mx = mx then best else []) @
        filter (\<lambda>q. 0 \<le> score c w q \<and> score c w q = bestScore c w ps mx) ps,
      bestScore c w ps mx)"
proof (induction ps arbitrary: best mx)
  case Nil
  then show ?case by simp
next
  case (Cons p ps)
  let ?i = "score c w p"
  show ?case
  proof (cases "?i < 0")
    case True
    then have "tryPosition c w p (best, mx) = (best, mx)"
      by (simp add: tryPosition_def score_def)
    then show ?thesis using True Cons.IH[of best mx] by simp
  next
    case False
    show ?thesis
    proof (cases "mx < ?i")
      case True
      then have t: "tryPosition c w p (best, mx) = ([p], ?i)"
        using False by (simp add: tryPosition_def score_def Let_def)
      have ge: "?i \<le> bestScore c w ps ?i" by (rule bestScore_ge)
      show ?thesis using True False t Cons.IH[of "[p]" ?i] ge by auto
    next
      case nlt: False
      show ?thesis
      proof (cases "?i = mx")
        case True
        then have t: "tryPosition c w p (best, mx) = (best @ [p], mx)"
          using False by (simp add: tryPosition_def score_def Let_def)
        show ?thesis using True False t Cons.IH[of "best @ [p]" mx] by auto
      next
        case neq: False
        then have t: "tryPosition c w p (best, mx) = (best, mx)"
          using False nlt by (simp add: tryPosition_def score_def Let_def)
        have "mx \<le> bestScore c w ps mx" by (rule bestScore_ge)
        then have "?i \<noteq> bestScore c w ps mx" using nlt neq by simp
        then show ?thesis using False nlt t Cons.IH[of best mx] by auto
      qed
    qed
  qed
qed

lemma bestPositions_eq:
  "bestPositions c w =
     (filter (\<lambda>q. 0 \<le> score c w q \<and> score c w q = bestScore c w (candidates c) (- 1))
        (candidates c),
      bestScore c w (candidates c) (- 1))"
  unfolding bestPositions_def fold_tryPosition by simp

lemma candidates_iff:
  "p \<in> set (candidates c) \<longleftrightarrow> isValidPosition c (X p) (Y p)"
proof -
  have "p \<in> set (candidates c) \<longleftrightarrow>
        (\<exists>x \<in> {0 .. height c - 1}. \<exists>y \<in> {0 .. width c - 1}.
            p = \<lparr>X = x, Y = y, Dir = Horizontal\<rparr> \<or> p = \<lparr>X = x, Y = y, Dir = Vertical\<rparr>)"
    by (auto simp: candidates_def)
  also have "\<dots> \<longleftrightarrow> isValidPosition c (X p) (Y p)"
  proof
    assume "\<exists>x \<in> {0 .. height c - 1}. \<exists>y \<in> {0 .. width c - 1}.
            p = \<lparr>X = x, Y = y, Dir = Horizontal\<rparr> \<or> p = \<lparr>X = x, Y = y, Dir = Vertical\<rparr>"
    then show "isValidPosition c (X p) (Y p)" by (auto simp: isValidPosition_def)
  next
    assume v: "isValidPosition c (X p) (Y p)"
    have "p = \<lparr>X = X p, Y = Y p, Dir = Horizontal\<rparr> \<or> p = \<lparr>X = X p, Y = Y p, Dir = Vertical\<rparr>"
      by (cases p; cases "Dir p"; simp)
    moreover have "X p \<in> {0 .. height c - 1}" "Y p \<in> {0 .. width c - 1}"
      using v by (auto simp: isValidPosition_def)
    ultimately show "\<exists>x \<in> {0 .. height c - 1}. \<exists>y \<in> {0 .. width c - 1}.
            p = \<lparr>X = x, Y = y, Dir = Horizontal\<rparr> \<or> p = \<lparr>X = x, Y = y, Dir = Vertical\<rparr>"
      by blast
  qed
  finally show ?thesis .
qed

lemma findBestPosition_None:
  "findBestPosition c w r = None \<longleftrightarrow> (\<forall>q \<in> set (candidates c). score c w q < 0)"
proof -
  let ?M = "bestScore c w (candidates c) (- 1)"
  let ?best = "filter (\<lambda>q. 0 \<le> score c w q \<and> score c w q = ?M) (candidates c)"
  have "findBestPosition c w r = None \<longleftrightarrow> ?best = []"
    by (simp add: findBestPosition_def bestPositions_eq Let_def)
  also have "\<dots> \<longleftrightarrow> (\<forall>q \<in> set (candidates c). score c w q < 0)"
  proof
    assume e: "?best = []"
    show "\<forall>q \<in> set (candidates c). score c w q < 0"
    proof (rule ccontr)
      assume "\<not> (\<forall>q \<in> set (candidates c). score c w q < 0)"
      then obtain q where q: "q \<in> set (candidates c)" "0 \<le> score c w q" by force
      from bestScore_upper[OF q, of "- 1"] have "?M \<noteq> - 1" using q(2) by linarith
      with bestScore_attained[of c w "candidates c" "- 1"]
      obtain q' where "q' \<in> set (candidates c)" "0 \<le> score c w q'" "score c w q' = ?M" by blast
      then have "q' \<in> set ?best" by simp
      with e show False by simp
    qed
  next
    assume "\<forall>q \<in> set (candidates c). score c w q < 0"
    then show "?best = []" by (auto simp: filter_empty_conv)
  qed
  finally show ?thesis .
qed

lemma findBestPosition_Some:
  assumes "findBestPosition c w r = Some p"
  shows "p \<in> set (candidates c)" "0 \<le> score c w p"
    "\<forall>q \<in> set (candidates c). score c w q \<le> score c w p"
proof -
  let ?M = "bestScore c w (candidates c) (- 1)"
  let ?best = "filter (\<lambda>q. 0 \<le> score c w q \<and> score c w q = ?M) (candidates c)"
  from assms have ne: "?best \<noteq> []" and p: "p = ?best ! (r mod length ?best)"
    by (auto simp: findBestPosition_def bestPositions_eq Let_def split: if_splits)
  have "r mod length ?best < length ?best" using ne by simp
  then have "p \<in> set ?best" unfolding p by (rule nth_mem)
  then have a: "p \<in> set (candidates c)" "0 \<le> score c w p" "score c w p = ?M" by simp_all
  show "p \<in> set (candidates c)" "0 \<le> score c w p" by fact+
  show "\<forall>q \<in> set (candidates c). score c w q \<le> score c w p"
  proof
    fix q assume q: "q \<in> set (candidates c)"
    show "score c w q \<le> score c w p"
    proof (cases "0 \<le> score c w q")
      case True
      from bestScore_upper[OF q True, of "- 1"] a(3) show ?thesis by simp
    next
      case False
      then show ?thesis using a(2) by linarith
    qed
  qed
qed

subsection \<open>Invariants kept by putWord\<close>

lemma NewCrossword_wellFormed:
  assumes "NewCrossword wd ht = Some c"
  shows "wellFormed c" "recorded c" "claimsHoldLetters c" "separated c" "stampsBounded c"
proof -
  from assms have c: "c = \<lparr> board = replicate (nat ht) (replicate (nat wd) CHR '' ''),
                  hWords = replicate (nat ht) (replicate (nat wd) 0),
                  vWords = replicate (nat ht) (replicate (nat wd) 0),
                  width = wd, height = ht, usedWords = Map.empty, placements = [],
                  hCount = 0, vCount = 0 \<rparr>"
    and ok: "0 \<le> ht" "0 < ht \<longrightarrow> 0 \<le> wd"
    by (auto simp: NewCrossword_def split: if_splits)
  show "wellFormed c" using ok by (auto simp: c wellFormed_def shaped_def)
  show "recorded c" by (simp add: c recorded_def)
  have z: "cell (hWords c) x y = 0 \<and> cell (vWords c) x y = 0" if "isValidPosition c x y" for x y
    using that by (auto simp: c cell_def isValidPosition_def)
  show "claimsHoldLetters c" using z by (simp add: claimsHoldLetters_def)
  show "separated c" using z by (simp add: separated_def)
  show "stampsBounded c" using z by (simp add: stampsBounded_def c)
qed

lemma claims_dir:
  "claimsHoldLetters c \<longleftrightarrow>
     (\<forall>x y. isValidPosition c x y \<longrightarrow>
        cell (own d c) x y \<noteq> 0 \<or> cell (other d c) x y \<noteq> 0 \<longrightarrow>
        \<not> notLetter (cell (board c) x y))"
  by (cases d) (auto simp: claimsHoldLetters_def own_def other_def)

lemma putWord_claimsHoldLetters:
  assumes "wellFormed c" "claimsHoldLetters c" "0 \<le> canBePlaced c w x y d" "letterWord w"
    "putWord c w x y d = Some c'"
  shows "claimsHoldLetters c'"
proof (cases "usedWords c w = Some True")
  case True
  then show ?thesis using assms(2,5) by (simp add: putWord_def)
next
  case False
  from putWord_effect[OF assms(1,3) False] assms(5)
  have dims: "width c' = width c" "height c' = height c"
    and oth: "other d c' = other d c"
    and cells: "\<And>x' y'. isValidPosition c x' y' \<Longrightarrow>
              cell (own d c') x' y' =
                (if onSpan d x y (length w) x' y' then stamp d c else cell (own d c) x' y') \<and>
              cell (board c') x' y' =
                (if (x', y') = afterCell d x y (length w) \<or> (x', y') = beforeCell d x y
                 then CHR ''*''
                 else if onSpan d x y (length w) x' y' then w ! spanIndex d x y x' y'
                 else cell (board c) x' y')"
    by auto
  show ?thesis unfolding claims_dir[of c' d]
  proof (intro allI impI)
    fix x' y' assume v': "isValidPosition c' x' y'"
      and cl: "cell (own d c') x' y' \<noteq> 0 \<or> cell (other d c') x' y' \<noteq> 0"
    have v: "isValidPosition c x' y'" using v' dims by (simp add: isValidPosition_def)
    note cs = cells[OF v]
    note old = assms(2)[unfolded claims_dir[of c d], rule_format, OF v]
    show "\<not> notLetter (cell (board c') x' y')"
    proof (cases "onSpan d x y (length w) x' y'")
      case True
      have "w ! spanIndex d x y x' y' \<in> set w" using spanIndex_less[OF True] by simp
      then have "\<not> notLetter (w ! spanIndex d x y x' y')" using assms(4) by (simp add: letterWord_def)
      then show ?thesis
        using cs True onSpan_not_before[OF True] onSpan_not_after[OF True] by simp
    next
      case False
      show ?thesis
      proof (cases "(x', y') = beforeCell d x y \<or> (x', y') = afterCell d x y (length w)")
        case True
        from accepted_cells(2)[OF assms(3) v True] old cl cs False oth
        show ?thesis by auto
      next
        case F2: False
        then show ?thesis using old cl cs False oth by auto
      qed
    qed
  qed
qed

lemma putWord_separated:
  assumes "wellFormed c" "claimsHoldLetters c" "separated c" "0 \<le> canBePlaced c w x y d"
    "putWord c w x y d = Some c'"
  shows "separated c'"
proof (cases "usedWords c w = Some True")
  case True
  then show ?thesis using assms(3,5) by (simp add: putWord_def)
next
  case False
  from putWord_effect[OF assms(1,4) False] assms(5)
  have dims: "width c' = width c" "height c' = height c"
    and oth: "other d c' = other d c"
    and cells: "\<And>x' y'. isValidPosition c x' y' \<Longrightarrow>
              cell (own d c') x' y' =
                (if onSpan d x y (length w) x' y' then stamp d c else cell (own d c) x' y')"
    by auto
  have val: "isValidPosition c' = isValidPosition c"
    using dims by (intro ext) (simp add: isValidPosition_def)
  have edge: "cell (own d c) a b = 0"
    if "isValidPosition c a b" "(a, b) = beforeCell d x y \<or> (a, b) = afterCell d x y (length w)"
    for a b
  proof -
    from accepted_cells(2)[OF assms(4) that] have "notLetter (cell (board c) a b)" .
    with assms(2) that(1) show ?thesis
      unfolding claims_dir[of c d] by blast
  qed
  show ?thesis
  proof (cases d)
    case Horizontal
    have vsame: "vWords c' = vWords c" using oth by (simp add: Horizontal other_def)
    have h: "cell (hWords c') x' y' =
        (if x' = x \<and> y \<le> y' \<and> y' < y + int (length w) then hCount c + 1 else cell (hWords c) x' y')"
      if "isValidPosition c x' y'" for x' y'
      using cells[OF that] by (simp add: Horizontal own_def onSpan_H stamp_def)
    have e0: "cell (hWords c) x (y - 1) = 0" if "isValidPosition c x (y - 1)"
      using edge[OF that] by (simp add: Horizontal own_def beforeCell_def spanCell_def)
    have e1: "cell (hWords c) x (y + int (length w)) = 0" if "isValidPosition c x (y + int (length w))"
      using edge[OF that] by (simp add: Horizontal own_def afterCell_def spanCell_def)
    show ?thesis unfolding separated_def val vsame
    proof (intro allI conjI impI)
      fix a b
      assume a: "isValidPosition c a b \<and> isValidPosition c a (b + 1) \<and>
                 0 < cell (hWords c') a b \<and> 0 < cell (hWords c') a (b + 1)"
      then have v1: "isValidPosition c a b" and v2: "isValidPosition c a (b + 1)" by simp_all
      from assms(3) v1 v2 have old: "0 < cell (hWords c) a b \<Longrightarrow> 0 < cell (hWords c) a (b + 1)
            \<Longrightarrow> cell (hWords c) a b = cell (hWords c) a (b + 1)"
        by (simp add: separated_def)
      consider (both) "a = x \<and> y \<le> b \<and> b + 1 < y + int (length w)"
        | (last) "a = x \<and> b + 1 = y + int (length w) \<and> y \<le> b"
        | (first) "a = x \<and> b = y - 1 \<and> b + 1 < y + int (length w)"
        | (none) "\<not> (a = x \<and> y \<le> b \<and> b < y + int (length w))"
                 "\<not> (a = x \<and> y \<le> b + 1 \<and> b + 1 < y + int (length w))"
        by linarith
      then show "cell (hWords c') a b = cell (hWords c') a (b + 1)"
      proof cases
        case both
        then show ?thesis using h[OF v1] h[OF v2] by simp
      next
        case last
        then have "cell (hWords c') a (b + 1) = cell (hWords c) x (y + int (length w))"
          using h[OF v2] by simp
        moreover have "isValidPosition c x (y + int (length w))" using v2 last by simp
        ultimately show ?thesis using e1 a by simp
      next
        case first
        then have "cell (hWords c') a b = cell (hWords c) x (y - 1)"
          using h[OF v1] by simp
        moreover have "isValidPosition c x (y - 1)" using v1 first by simp
        ultimately show ?thesis using e0 a by simp
      next
        case none
        have "cell (hWords c') a b = cell (hWords c) a b"
          "cell (hWords c') a (b + 1) = cell (hWords c) a (b + 1)"
          using h[OF v1] h[OF v2] none by auto
        then show ?thesis using a old by simp
      qed
    next
      fix a b
      assume "isValidPosition c a b \<and> isValidPosition c (a + 1) b \<and>
                 0 < cell (vWords c) a b \<and> 0 < cell (vWords c) (a + 1) b"
      then show "cell (vWords c) a b = cell (vWords c) (a + 1) b"
        using assms(3) by (simp add: separated_def)
    qed
  next
    case Vertical
    have hsame: "hWords c' = hWords c" using oth by (simp add: Vertical other_def)
    have h: "cell (vWords c') x' y' =
        (if y' = y \<and> x \<le> x' \<and> x' < x + int (length w) then vCount c + 1 else cell (vWords c) x' y')"
      if "isValidPosition c x' y'" for x' y'
      using cells[OF that] by (simp add: Vertical own_def onSpan_V stamp_def)
    have e0: "cell (vWords c) (x - 1) y = 0" if "isValidPosition c (x - 1) y"
      using edge[OF that] by (simp add: Vertical own_def beforeCell_def spanCell_def)
    have e1: "cell (vWords c) (x + int (length w)) y = 0" if "isValidPosition c (x + int (length w)) y"
      using edge[OF that] by (simp add: Vertical own_def afterCell_def spanCell_def)
    show ?thesis unfolding separated_def val hsame
    proof (intro allI conjI impI)
      fix a b
      assume a: "isValidPosition c a b \<and> isValidPosition c (a + 1) b \<and>
                 0 < cell (vWords c') a b \<and> 0 < cell (vWords c') (a + 1) b"
      then have v1: "isValidPosition c a b" and v2: "isValidPosition c (a + 1) b" by simp_all
      from assms(3) v1 v2 have old: "0 < cell (vWords c) a b \<Longrightarrow> 0 < cell (vWords c) (a + 1) b
            \<Longrightarrow> cell (vWords c) a b = cell (vWords c) (a + 1) b"
        by (simp add: separated_def)
      consider (both) "b = y \<and> x \<le> a \<and> a + 1 < x + int (length w)"
        | (last) "b = y \<and> a + 1 = x + int (length w) \<and> x \<le> a"
        | (first) "b = y \<and> a = x - 1 \<and> a + 1 < x + int (length w)"
        | (none) "\<not> (b = y \<and> x \<le> a \<and> a < x + int (length w))"
                 "\<not> (b = y \<and> x \<le> a + 1 \<and> a + 1 < x + int (length w))"
        by linarith
      then show "cell (vWords c') a b = cell (vWords c') (a + 1) b"
      proof cases
        case both
        then show ?thesis using h[OF v1] h[OF v2] by simp
      next
        case last
        then have "cell (vWords c') (a + 1) b = cell (vWords c) (x + int (length w)) y"
          using h[OF v2] by simp
        moreover have "isValidPosition c (x + int (length w)) y" using v2 last by simp
        ultimately show ?thesis using e1 a by simp
      next
        case first
        then have "cell (vWords c') a b = cell (vWords c) (x - 1) y"
          using h[OF v1] by simp
        moreover have "isValidPosition c (x - 1) y" using v1 first by simp
        ultimately show ?thesis using e0 a by simp
      next
        case none
        have "cell (vWords c') a b = cell (vWords c) a b"
          "cell (vWords c') (a + 1) b = cell (vWords c) (a + 1) b"
          using h[OF v1] h[OF v2] none by auto
        then show ?thesis using a old by simp
      qed
    next
      fix a b
      assume "isValidPosition c a b \<and> isValidPosition c a (b + 1) \<and>
                 0 < cell (hWords c) a b \<and> 0 < cell (hWords c) a (b + 1)"
      then show "cell (hWords c) a b = cell (hWords c) a (b + 1)"
        using assms(3) by (simp add: separated_def)
    qed
  qed
qed

text \<open>An effective \<open>putWord\<close> stamps its span with the incremented counter, a number
  that no cell of that map carries yet.\<close>

lemma putWord_stampsBounded:
  assumes "wellFormed c" "stampsBounded c" "0 \<le> canBePlaced c w x y d"
    "putWord c w x y d = Some c'"
  shows "stampsBounded c'"
proof (cases "usedWords c w = Some True")
  case True
  then show ?thesis using assms(2,4) by (simp add: putWord_def)
next
  case False
  from putWord_effect[OF assms(1,3) False] assms(4)
  have dims: "width c' = width c" "height c' = height c"
    and oth: "other d c' = other d c"
    and cells: "\<And>x' y'. isValidPosition c x' y' \<Longrightarrow>
              cell (own d c') x' y' =
                (if onSpan d x y (length w) x' y' then stamp d c else cell (own d c) x' y')"
    by auto
  note cnt = putWord_counts[OF assms(4) False]
  from assms(2) have c0: "0 \<le> hCount c" "0 \<le> vCount c"
    and old: "\<And>a b. isValidPosition c a b \<Longrightarrow>
        cell (hWords c) a b \<le> hCount c \<and> cell (vWords c) a b \<le> vCount c"
    by (simp_all add: stampsBounded_def)
  have "cell (hWords c') a b \<le> hCount c' \<and> cell (vWords c') a b \<le> vCount c'"
    if v': "isValidPosition c' a b" for a b
  proof -
    have v: "isValidPosition c a b" using v' dims by (simp add: isValidPosition_def)
    show ?thesis
    proof (cases d)
      case Horizontal
      from cells[OF v] oth old[OF v] cnt show ?thesis
        unfolding Horizontal by (auto simp: own_def other_def stamp_def)
    next
      case Vertical
      from cells[OF v] oth old[OF v] cnt show ?thesis
        unfolding Vertical by (auto simp: own_def other_def stamp_def)
    qed
  qed
  moreover have "0 \<le> hCount c'" "0 \<le> vCount c'" using cnt c0 by auto
  ultimately show ?thesis by (simp add: stampsBounded_def)
qed

subsection \<open>Undo in LIFO order, up to erosion\<close>

lemma eroded_refl: "wellFormed s \<Longrightarrow> eroded s s"
  by (simp add: eroded_def erodedCell_def view_def)

lemma eroded_trans:
  assumes "eroded s t" "eroded t u"
  shows "eroded s u"
proof -
  have "erodedCell (view s x y) (view u x y)" if v: "isValidPosition s x y" for x y
  proof -
    have vt: "isValidPosition t x y" using v assms(1) by (simp add: eroded_def isValidPosition_def)
    from assms v vt have "erodedCell (view s x y) (view t x y)" "erodedCell (view t x y) (view u x y)"
      by (simp_all add: eroded_def)
    then show ?thesis by (auto simp: erodedCell_def view_def)
  qed
  then show ?thesis using assms by (auto simp: eroded_def)
qed

lemma eroded_claimsHoldLetters:
  assumes "claimsHoldLetters s" "eroded s t"
  shows "claimsHoldLetters t"
  unfolding claimsHoldLetters_def
proof (intro allI impI)
  fix x y assume v: "isValidPosition t x y"
    and cl: "cell (hWords t) x y \<noteq> 0 \<or> cell (vWords t) x y \<noteq> 0"
  have vs: "isValidPosition s x y" using v assms(2) by (simp add: eroded_def isValidPosition_def)
  then have e: "erodedCell (view s x y) (view t x y)" using assms(2) by (simp add: eroded_def)
  from assms(1) vs have "cell (hWords s) x y \<noteq> 0 \<or> cell (vWords s) x y \<noteq> 0 \<longrightarrow>
        \<not> notLetter (cell (board s) x y)" by (simp add: claimsHoldLetters_def)
  with e cl show "\<not> notLetter (cell (board t) x y)"
    by (auto simp: erodedCell_def view_def)
qed

lemma eroded_separated:
  assumes "separated s" "eroded s t"
  shows "separated t"
proof -
  have dims: "isValidPosition t = isValidPosition s"
    using assms(2) by (intro ext) (simp add: eroded_def isValidPosition_def)
  have e: "erodedCell (view s x y) (view t x y)" if "isValidPosition s x y" for x y
    using assms(2) that by (simp add: eroded_def)
  show ?thesis unfolding separated_def dims
  proof (intro allI conjI impI)
    fix x y
    assume a: "isValidPosition s x y \<and> isValidPosition s x (y + 1) \<and>
              cell (hWords t) x y > 0 \<and> cell (hWords t) x (y + 1) > 0"
    with e[of x y] e[of x "y + 1"] have "cell (hWords t) x y = cell (hWords s) x y"
      "cell (hWords t) x (y + 1) = cell (hWords s) x (y + 1)"
      by (auto simp: erodedCell_def view_def)
    with a assms(1) show "cell (hWords t) x y = cell (hWords t) x (y + 1)"
      by (simp add: separated_def)
  next
    fix x y
    assume a: "isValidPosition s x y \<and> isValidPosition s (x + 1) y \<and>
              cell (vWords t) x y > 0 \<and> cell (vWords t) (x + 1) y > 0"
    with e[of x y] e[of "x + 1" y] have "cell (vWords t) x y = cell (vWords s) x y"
      "cell (vWords t) (x + 1) y = cell (vWords s) (x + 1) y"
      by (auto simp: erodedCell_def view_def)
    with a assms(1) show "cell (vWords t) x y = cell (vWords t) (x + 1) y"
      by (simp add: separated_def)
  qed
qed

lemma eroded_stampsBounded:
  assumes "stampsBounded s" "eroded s t"
  shows "stampsBounded t"
proof -
  from assms have cnt: "0 \<le> hCount t" "0 \<le> vCount t"
    "hCount s \<le> hCount t" "vCount s \<le> vCount t"
    by (simp_all add: stampsBounded_def eroded_def)
  have "cell (hWords t) x y \<le> hCount t \<and> cell (vWords t) x y \<le> vCount t"
    if v: "isValidPosition t x y" for x y
  proof -
    have vs: "isValidPosition s x y" using v assms(2) by (simp add: eroded_def isValidPosition_def)
    then have e: "erodedCell (view s x y) (view t x y)" using assms(2) by (simp add: eroded_def)
    from assms(1) vs have "cell (hWords s) x y \<le> hCount s" "cell (vWords s) x y \<le> vCount s"
      by (simp_all add: stampsBounded_def)
    with e cnt show ?thesis by (auto simp: erodedCell_def view_def)
  qed
  then show ?thesis using cnt by (simp add: stampsBounded_def)
qed

lemma erodedCell_dir:
  "erodedCell (view s a b) (view t a b) \<longleftrightarrow>
     (cell (own d t) a b = cell (own d s) a b \<or> cell (own d t) a b = 0) \<and>
     (cell (other d t) a b = cell (other d s) a b \<or> cell (other d t) a b = 0) \<and>
     (cell (board t) a b = cell (board s) a b \<or>
      (notLetter (cell (board t) a b) \<and> cell (own d t) a b = 0 \<and> cell (other d t) a b = 0))"
  by (cases d) (auto simp: erodedCell_def view_def own_def other_def)

lemma undo_erodes:
  assumes wf0: "wellFormed s0" and inv0: "claimsHoldLetters s0"
    and acc: "0 \<le> canBePlaced s0 w x y d"
    and put: "putWord s0 w x y d = Some s1"
    and er: "eroded s1 t"
    and rem: "removeWord t w x y d = Some c'"
  shows "eroded s0 c'"
proof -
  have wft: "wellFormed t" and dimt: "width t = width s1" "height t = height s1"
    using er by (simp_all add: eroded_def)
  from putWord_wf[OF wf0 acc put] have dim1: "width s1 = width s0" "height s1 = height s0"
    by simp_all
  have svt: "spanValid t d x y (length w)"
    using canBePlaced_accepted(1)[OF acc] dimt dim1 by (simp add: spanValid_def isValidPosition_def)
  from removeWord_spec[OF wft svt] rem
  have wfc: "wellFormed c'" and dimc: "width c' = width t" "height c' = height t"
    and oth: "other d c' = other d t"
    and cells: "\<And>x' y'. isValidPosition t x' y' \<Longrightarrow>
              cell (own d c') x' y' =
                (if onSpan d x y (length w) x' y' then 0 else cell (own d t) x' y') \<and>
              (if onSpan d x y (length w) x' y'
               then cell (board c') x' y' =
                      (if cell (other d t) x' y' = 0 then CHR '' '' else cell (board t) x' y')
               else cell (board c') x' y' = cell (board t) x' y' \<or>
                    (cell (board c') x' y' = CHR '' '' \<and>
                     ((x', y') = beforeCell d x y \<or> (x', y') = afterCell d x y (length w))))"
    by auto
  have cnt: "hCount s0 \<le> hCount c'" "vCount s0 \<le> vCount c'"
  proof -
    have "hCount s0 \<le> hCount s1 \<and> vCount s0 \<le> vCount s1"
    proof (cases "usedWords s0 w = Some True")
      case True
      then show ?thesis using put by (simp add: putWord_def)
    next
      case False
      from putWord_counts[OF put False] show ?thesis by (simp split: if_splits)
    qed
    moreover have "hCount s1 \<le> hCount t" "vCount s1 \<le> vCount t"
      using er by (simp_all add: eroded_def)
    ultimately show "hCount s0 \<le> hCount c'" "vCount s0 \<le> vCount c'"
      using removeWord_frame(5,6)[OF rem] by simp_all
  qed
  have "erodedCell (view s0 a b) (view c' a b)" if v0: "isValidPosition s0 a b" for a b
  proof -
    have v1: "isValidPosition s1 a b" using v0 dim1 by (simp add: isValidPosition_def)
    have vt: "isValidPosition t a b" using v1 dimt by (simp add: isValidPosition_def)
    from er v1 have e1: "erodedCell (view s1 a b) (view t a b)" by (simp add: eroded_def)
    note e1d = e1[unfolded erodedCell_dir[of s1 a b t d]]
    note cs = cells[OF vt]
    note old = inv0[unfolded claims_dir[of s0 d], rule_format, OF v0]
    have blank: "notLetter CHR '' ''" by (simp add: notLetter_def)
    show ?thesis unfolding erodedCell_dir[of s0 a b c' d] oth
    proof (cases "usedWords s0 w = Some True")
      case True
      then have s1: "s1 = s0" using put by (simp add: putWord_def)
      show "(cell (own d c') a b = cell (own d s0) a b \<or> cell (own d c') a b = 0) \<and>
        (cell (other d t) a b = cell (other d s0) a b \<or> cell (other d t) a b = 0) \<and>
        (cell (board c') a b = cell (board s0) a b \<or>
         notLetter (cell (board c') a b) \<and> cell (own d c') a b = 0 \<and> cell (other d t) a b = 0)"
      proof (cases "onSpan d x y (length w) a b")
        case os: True
        then show ?thesis using cs e1d blank unfolding s1 by auto
      next
        case os: False
        show ?thesis
        proof (cases "(a, b) = beforeCell d x y \<or> (a, b) = afterCell d x y (length w)")
          case True
          from accepted_cells(2)[OF acc v0 True] old
          have "cell (own d s0) a b = 0" "cell (other d s0) a b = 0" by auto
          then show ?thesis using cs e1d blank os unfolding s1 by auto
        next
          case False
          then show ?thesis using cs e1d os unfolding s1 by auto
        qed
      qed
    next
      case False
      from putWord_effect[OF wf0 acc False] put
      have oth1: "other d s1 = other d s0"
        and c1: "cell (own d s1) a b =
                (if onSpan d x y (length w) a b then stamp d s0 else cell (own d s0) a b)"
           "cell (board s1) a b =
                (if (a, b) = afterCell d x y (length w) \<or> (a, b) = beforeCell d x y
                 then CHR ''*''
                 else if onSpan d x y (length w) a b then w ! spanIndex d x y a b
                 else cell (board s0) a b)"
        using v0 by auto
      show "(cell (own d c') a b = cell (own d s0) a b \<or> cell (own d c') a b = 0) \<and>
        (cell (other d t) a b = cell (other d s0) a b \<or> cell (other d t) a b = 0) \<and>
        (cell (board c') a b = cell (board s0) a b \<or>
         notLetter (cell (board c') a b) \<and> cell (own d c') a b = 0 \<and> cell (other d t) a b = 0)"
      proof (cases "onSpan d x y (length w) a b")
        case os: True
        note nb = onSpan_not_before[OF os] onSpan_not_after[OF os]
        from accepted_cells(1)[OF acc v0 os]
        have fit: "cell (board s0) a b = CHR '' '' \<or> cell (board s0) a b = w ! spanIndex d x y a b" .
        show ?thesis
        proof (cases "cell (other d t) a b = 0")
          case True
          then show ?thesis using cs e1d blank os oth1 by auto
        next
          case False
          then have "cell (other d s0) a b \<noteq> 0" using e1d oth1 by auto
          with old have "\<not> notLetter (cell (board s0) a b)" by simp
          with fit have "cell (board s0) a b = w ! spanIndex d x y a b" by (auto simp: notLetter_def)
          then show ?thesis using cs e1d os oth1 c1 nb False by auto
        qed
      next
        case os: False
        show ?thesis
        proof (cases "(a, b) = beforeCell d x y \<or> (a, b) = afterCell d x y (length w)")
          case True
          from accepted_cells(2)[OF acc v0 True] old
          have z: "cell (own d s0) a b = 0" "cell (other d s0) a b = 0"
            and nl: "notLetter (cell (board s0) a b)" by auto
          have "notLetter CHR ''*''" by (simp add: notLetter_def)
          then show ?thesis using cs e1d blank os oth1 c1 z True by auto
        next
          case False
          then show ?thesis using cs e1d os oth1 c1 by auto
        qed
      qed
    qed
  qed
  then show ?thesis using wfc dimc dimt dim1 cnt by (simp add: eroded_def)
qed

lemma eroded_sound: "sound s \<Longrightarrow> eroded s t \<Longrightarrow> sound t"
  using eroded_claimsHoldLetters[of s t] eroded_separated[of s t] eroded_stampsBounded[of s t]
  by (simp add: sound_def eroded_def)

lemma putWord_sound:
  assumes "sound c" "accepted c (w, x, y, d)" "putWord c w x y d = Some c'"
  shows "sound c'"
proof -
  from assms(1) have wf: "wellFormed c" and cl: "claimsHoldLetters c" and sp: "separated c"
    and sb: "stampsBounded c"
    by (simp_all add: sound_def)
  from assms(2) have lw: "letterWord w" and acc: "0 \<le> canBePlaced c w x y d" by simp_all
  from putWord_wf[OF wf acc assms(3)] putWord_claimsHoldLetters[OF wf cl acc lw assms(3)]
    putWord_separated[OF wf cl sp acc assms(3)] putWord_stampsBounded[OF wf sb acc assms(3)]
  show ?thesis by (simp add: sound_def)
qed

lemma backed_eroded: "backed c0 st c \<Longrightarrow> eroded c c' \<Longrightarrow> backed c0 st c'"
proof (cases st)
  case Nil
  assume "backed c0 st c" "eroded c c'"
  then show ?thesis using Nil eroded_trans by auto
next
  case (Cons a st')
  assume b: "backed c0 st c" and e: "eroded c c'"
  obtain w x y d where a: "a = (w, x, y, d)" by (cases a) auto
  from b obtain s0 s1 where
    "backed c0 st' s0" "sound s0" "accepted s0 (w, x, y, d)" "putWord s0 w x y d = Some s1"
    "eroded s1 c"
    unfolding Cons a by auto
  moreover from this e have "eroded s1 c'" using eroded_trans by blast
  ultimately show ?thesis unfolding Cons a by auto
qed

lemma backed_sound: "sound c0 \<Longrightarrow> backed c0 st c \<Longrightarrow> sound c"
proof (cases st)
  case Nil
  assume "sound c0" "backed c0 st c"
  then show ?thesis using Nil eroded_sound by auto
next
  case (Cons a st')
  assume s: "sound c0" and b: "backed c0 st c"
  obtain w x y d where a: "a = (w, x, y, d)" by (cases a) auto
  from b obtain s0 s1 where
    s0: "sound s0" "accepted s0 (w, x, y, d)" "putWord s0 w x y d = Some s1" and e: "eroded s1 c"
    unfolding Cons a by auto
  from putWord_sound[OF s0] e show ?thesis by (rule eroded_sound)
qed

lemma lifo_backed:
  assumes "sound c0" "lifo accepted c0 st c"
  shows "backed c0 st c"
  using assms(2)
proof (induction rule: lifo.induct)
  case lifo_start
  from assms(1) show ?case by (simp add: sound_def eroded_refl)
next
  case (lifo_put st c w x y d c')
  from backed_sound[OF assms(1) lifo_put.IH] have s: "sound c" .
  from putWord_sound[OF s lifo_put.hyps(2,3)] have "eroded c' c'"
    by (simp add: sound_def eroded_refl)
  with lifo_put.IH s lifo_put.hyps(2,3) show ?case by auto
next
  case (lifo_remove w x y d st c c')
  from lifo_remove.IH obtain s0 s1 where
    b: "backed c0 st s0" and s0: "sound s0" and acc: "accepted s0 (w, x, y, d)"
    and put: "putWord s0 w x y d = Some s1" and e: "eroded s1 c"
    by auto
  from s0 have wf: "wellFormed s0" and cl: "claimsHoldLetters s0" by (simp_all add: sound_def)
  from acc have a: "0 \<le> canBePlaced s0 w x y d" by simp
  from undo_erodes[OF wf cl a put e lifo_remove.hyps(2)] have "eroded s0 c'" .
  with b show ?case by (rule backed_eroded)
qed

lemma lifo_sound: "sound c0 \<Longrightarrow> lifo accepted c0 st c \<Longrightarrow> sound c"
  using backed_sound lifo_backed by blast

text \<open>In LIFO order neither operation panics.\<close>

lemma lifo_remove_total:
  assumes "sound c0" "lifo accepted c0 ((w, x, y, d) # st) c"
  shows "\<exists>c'. removeWord c w x y d = Some c'"
proof -
  from lifo_backed[OF assms] obtain s0 s1 where
    s0: "sound s0" and acc: "accepted s0 (w, x, y, d)"
    and put: "putWord s0 w x y d = Some s1" and e: "eroded s1 c"
    by auto
  from s0 have wf: "wellFormed s0" by (simp add: sound_def)
  from acc have a: "0 \<le> canBePlaced s0 w x y d" by simp
  from putWord_wf[OF wf a put] e have wfc: "wellFormed c"
    and dims: "width c = width s0" "height c = height s0"
    by (simp_all add: eroded_def)
  have "spanValid c d x y (length w)"
    using canBePlaced_accepted(1)[OF a] dims by (simp add: spanValid_def isValidPosition_def)
  from removeWord_total[OF wfc this] show ?thesis by blast
qed

subsection \<open>Exact undo of effective commits\<close>

lemma restored_refl: "wellFormed s \<Longrightarrow> restored s s"
  by (simp add: restored_def)

lemma restored_trans:
  assumes "restored s t" "restored t u"
  shows "restored s u"
proof -
  have "cell (board u) x y = cell (board s) x y \<or>
        (notLetter (cell (board s) x y) \<and> notLetter (cell (board u) x y))"
    if v: "isValidPosition s x y" for x y
  proof -
    have vt: "isValidPosition t x y" using v assms(1) by (simp add: restored_def isValidPosition_def)
    from assms v vt show ?thesis unfolding restored_def by metis
  qed
  then show ?thesis using assms by (simp add: restored_def)
qed

lemma restored_tidy:
  assumes "tidy s" "restored s t"
  shows "tidy t"
proof -
  have val: "isValidPosition t x y \<Longrightarrow> isValidPosition s x y" for x y
    using assms(2) by (simp add: restored_def isValidPosition_def)
  have b: "cell (board t) x y = cell (board s) x y \<or>
        (notLetter (cell (board s) x y) \<and> notLetter (cell (board t) x y))"
    if "isValidPosition t x y" for x y
    using assms(2) val[OF that] by (simp add: restored_def)
  have maps: "hWords t = hWords s" "vWords t = vWords s" using assms(2) by (simp_all add: restored_def)
  have "claimsHoldLetters t"
    unfolding claimsHoldLetters_def maps
  proof (intro allI impI)
    fix x y assume v: "isValidPosition t x y"
      and cl: "cell (hWords s) x y \<noteq> 0 \<or> cell (vWords s) x y \<noteq> 0"
    from assms(1) val[OF v] cl have "\<not> notLetter (cell (board s) x y)"
      by (simp add: tidy_def claimsHoldLetters_def)
    with b[OF v] show "\<not> notLetter (cell (board t) x y)" by auto
  qed
  moreover have "noStrayLetters t"
    unfolding noStrayLetters_def maps
  proof (intro allI impI)
    fix x y assume v: "isValidPosition t x y"
      and cl: "cell (hWords s) x y = 0 \<and> cell (vWords s) x y = 0"
    from assms(1) val[OF v] cl have "notLetter (cell (board s) x y)"
      by (simp add: tidy_def noStrayLetters_def)
    with b[OF v] show "notLetter (cell (board t) x y)" by auto
  qed
  moreover have "stampsNonneg t"
    unfolding stampsNonneg_def maps
  proof (intro allI impI)
    fix x y assume v: "isValidPosition t x y"
    from assms(1) val[OF v] show "0 \<le> cell (hWords s) x y \<and> 0 \<le> cell (vWords s) x y"
      by (simp add: tidy_def stampsNonneg_def)
  qed
  ultimately show ?thesis using assms by (simp add: tidy_def restored_def)
qed

lemma spanFree_onSpan:
  "spanFree c w x y d \<Longrightarrow> onSpan d x y (length w) a b \<Longrightarrow> cell (own d c) a b = 0"
  by (auto simp: spanFree_def onSpan_def)

lemma tidy_dir:
  "noStrayLetters c \<longleftrightarrow>
     (\<forall>x y. isValidPosition c x y \<longrightarrow>
        cell (own d c) x y = 0 \<and> cell (other d c) x y = 0 \<longrightarrow> notLetter (cell (board c) x y))"
  by (cases d) (auto simp: noStrayLetters_def own_def other_def)

lemma nonneg_dir:
  "stampsNonneg c \<longleftrightarrow>
     (\<forall>x y. isValidPosition c x y \<longrightarrow> 0 \<le> cell (own d c) x y \<and> 0 \<le> cell (other d c) x y)"
  by (cases d) (auto simp: stampsNonneg_def own_def other_def)

lemma putWord_tidy:
  assumes "tidy c" "effective c (w, x, y, d)" "putWord c w x y d = Some c'"
  shows "tidy c'"
proof -
  from assms(1) have wf: "wellFormed c" and cl: "claimsHoldLetters c" and ns: "noStrayLetters c"
    and nn: "stampsNonneg c"
    and cnt: "0 \<le> hCount c" "0 \<le> vCount c" by (simp_all add: tidy_def)
  from assms(2) have lw: "letterWord w" and acc: "0 \<le> canBePlaced c w x y d"
    and un: "usedWords c w \<noteq> Some True" by simp_all
  from putWord_effect[OF wf acc un] assms(3)
  have wf': "wellFormed c'" and dims: "width c' = width c" "height c' = height c"
    and oth: "other d c' = other d c"
    and cells: "\<And>x' y'. isValidPosition c x' y' \<Longrightarrow>
              cell (own d c') x' y' =
                (if onSpan d x y (length w) x' y' then stamp d c else cell (own d c) x' y') \<and>
              cell (board c') x' y' =
                (if (x', y') = afterCell d x y (length w) \<or> (x', y') = beforeCell d x y
                 then CHR ''*''
                 else if onSpan d x y (length w) x' y' then w ! spanIndex d x y x' y'
                 else cell (board c) x' y')"
    by auto
  have st0: "0 \<le> stamp d c" using cnt by (cases d) (simp_all add: stamp_def)
  have st: "stamp d c \<noteq> 0" using cnt by (cases d) (simp_all add: stamp_def)
  have "noStrayLetters c'" unfolding tidy_dir[of c' d]
  proof (intro allI impI)
    fix a b assume v': "isValidPosition c' a b"
      and z: "cell (own d c') a b = 0 \<and> cell (other d c') a b = 0"
    have v: "isValidPosition c a b" using v' dims by (simp add: isValidPosition_def)
    note cs = cells[OF v]
    note old = ns[unfolded tidy_dir[of c d], rule_format, OF v]
    have star: "notLetter CHR ''*''" by (simp add: notLetter_def)
    show "notLetter (cell (board c') a b)"
    proof (cases "onSpan d x y (length w) a b")
      case True
      then show ?thesis using cs z st by simp
    next
      case False
      then show ?thesis using cs z oth old star by auto
    qed
  qed
  moreover have "stampsNonneg c'" unfolding nonneg_dir[of c' d]
  proof (intro allI impI)
    fix a b assume v': "isValidPosition c' a b"
    have v: "isValidPosition c a b" using v' dims by (simp add: isValidPosition_def)
    from nn[unfolded nonneg_dir[of c d], rule_format, OF v] cells[OF v] oth st0
    show "0 \<le> cell (own d c') a b \<and> 0 \<le> cell (other d c') a b" by simp
  qed
  moreover have "0 \<le> hCount c'" "0 \<le> vCount c'"
    using putWord_counts[OF assms(3) un] cnt by auto
  ultimately show ?thesis
    using wf' putWord_claimsHoldLetters[OF wf cl acc lw assms(3)] by (simp add: tidy_def)
qed

lemma wellFormed_dir:
  "wellFormed c \<Longrightarrow> shaped (own d c) (height c) (width c) \<and> shaped (other d c) (height c) (width c)"
  by (cases d) (simp_all add: wellFormed_def own_def other_def)

lemma maps_dir:
  "own d t = own d s \<Longrightarrow> other d t = other d s \<Longrightarrow> hWords t = hWords s \<and> vWords t = vWords s"
  by (cases d) (simp_all add: own_def other_def)

lemma undo_restores:
  assumes td: "tidy s0" and eff: "effective s0 (w, x, y, d)"
    and put: "putWord s0 w x y d = Some s1"
    and rs: "restored s1 t"
    and rem: "removeWord t w x y d = Some c'"
  shows "restored s0 c'"
proof -
  from td have wf0: "wellFormed s0" and cl0: "claimsHoldLetters s0" and ns0: "noStrayLetters s0"
    by (simp_all add: tidy_def)
  from eff have lw: "letterWord w" and acc: "0 \<le> canBePlaced s0 w x y d"
    and un: "usedWords s0 w = None" and free: "spanFree s0 w x y d" by simp_all
  from un have un': "usedWords s0 w \<noteq> Some True" by simp
  from putWord_effect[OF wf0 acc un'] put
  have dim1: "width s1 = width s0" "height s1 = height s0"
    and used1: "usedWords s1 = (usedWords s0)(w \<mapsto> True)"
    and oth1: "other d s1 = other d s0"
    and cells1: "\<And>a b. isValidPosition s0 a b \<Longrightarrow>
              cell (own d s1) a b =
                (if onSpan d x y (length w) a b then stamp d s0 else cell (own d s0) a b) \<and>
              cell (board s1) a b =
                (if (a, b) = afterCell d x y (length w) \<or> (a, b) = beforeCell d x y
                 then CHR ''*''
                 else if onSpan d x y (length w) a b then w ! spanIndex d x y a b
                 else cell (board s0) a b)"
    by auto
  from rs have wft: "wellFormed t" and dimt: "width t = width s1" "height t = height s1"
    and mapst: "hWords t = hWords s1" "vWords t = vWords s1"
    and usedt: "usedWords t = usedWords s1"
    and cntt: "hCount s1 \<le> hCount t" "vCount s1 \<le> vCount t"
    and boardt: "\<And>a b. isValidPosition s1 a b \<Longrightarrow>
        cell (board t) a b = cell (board s1) a b \<or>
        (notLetter (cell (board s1) a b) \<and> notLetter (cell (board t) a b))"
    by (simp_all add: restored_def)
  have mt: "own d t = own d s1" "other d t = other d s1"
    using mapst by (cases d; simp add: own_def other_def)+
  have svt: "spanValid t d x y (length w)"
    using canBePlaced_accepted(1)[OF acc] dimt dim1 by (simp add: spanValid_def isValidPosition_def)
  from removeWord_spec[OF wft svt] rem
  have wfc: "wellFormed c'" and dimc: "width c' = width t" "height c' = height t"
    and usedc: "usedWords c' = (usedWords t)(w := None)"
    and cntc: "hCount c' = hCount t" "vCount c' = vCount t"
    and othc: "other d c' = other d t"
    and cellsc: "\<And>a b. isValidPosition t a b \<Longrightarrow>
              cell (own d c') a b =
                (if onSpan d x y (length w) a b then 0 else cell (own d t) a b) \<and>
              (if onSpan d x y (length w) a b
               then cell (board c') a b =
                      (if cell (other d t) a b = 0 then CHR '' '' else cell (board t) a b)
               else cell (board c') a b = cell (board t) a b \<or>
                    (cell (board c') a b = CHR '' '' \<and>
                     ((a, b) = beforeCell d x y \<or> (a, b) = afterCell d x y (length w))))"
    by auto
  have dims: "width c' = width s0" "height c' = height s0"
    using dimc dimt dim1 by simp_all
  have valid: "isValidPosition s1 a b" "isValidPosition t a b" if "isValidPosition s0 a b" for a b
    using that dim1 dimt by (simp_all add: isValidPosition_def)
  \<comment> \<open>the occupancy maps\<close>
  have "own d c' = own d s0"
  proof (rule shaped_ext)
    show "shaped (own d c') (height s0) (width s0)"
      using wellFormed_dir[OF wfc, of d] dims by simp
    show "shaped (own d s0) (height s0) (width s0)"
      using wellFormed_dir[OF wf0, of d] by simp
    fix a b assume "0 \<le> a" "a < height s0" "0 \<le> b" "b < width s0"
    then have v: "isValidPosition s0 a b" by (simp add: isValidPosition_def)
    show "cell (own d c') a b = cell (own d s0) a b"
      using cellsc[OF valid(2)[OF v]] cells1[OF v] mt(1) spanFree_onSpan[OF free, of a b]
      by auto
  qed
  moreover have "other d c' = other d s0" using othc mt(2) oth1 by simp
  ultimately have maps: "hWords c' = hWords s0" "vWords c' = vWords s0"
    using maps_dir[of d c' s0] by simp_all
  \<comment> \<open>the used-word set and the counters\<close>
  have used: "usedWords c' = usedWords s0"
    using usedc usedt used1 un by (simp add: fun_upd_idem)
  have cnt: "hCount s0 \<le> hCount c'" "vCount s0 \<le> vCount c'"
    using putWord_counts[OF put un'] cntt cntc by (simp_all split: if_splits)
  \<comment> \<open>the board\<close>
  have board: "cell (board c') a b = cell (board s0) a b \<or>
        (notLetter (cell (board s0) a b) \<and> notLetter (cell (board c') a b))"
    if v: "isValidPosition s0 a b" for a b
  proof -
    note c1 = cells1[OF v]
    note ct = boardt[OF valid(1)[OF v]]
    note cc = cellsc[OF valid(2)[OF v]]
    note claims = cl0[unfolded claims_dir[of s0 d], rule_format, OF v]
    note stray = ns0[unfolded tidy_dir[of s0 d], rule_format, OF v]
    have blank: "notLetter CHR '' ''" and star: "notLetter CHR ''*''"
      by (simp_all add: notLetter_def)
    show ?thesis
    proof (cases "onSpan d x y (length w) a b")
      case os: True
      note nb = onSpan_not_before[OF os] onSpan_not_after[OF os]
      have own0: "cell (own d s0) a b = 0" by (rule spanFree_onSpan[OF free os])
      from accepted_cells(1)[OF acc v os]
      have fit: "cell (board s0) a b = CHR '' '' \<or> cell (board s0) a b = w ! spanIndex d x y a b" .
      have "w ! spanIndex d x y a b \<in> set w" using spanIndex_less[OF os] by simp
      then have letter: "\<not> notLetter (w ! spanIndex d x y a b)"
        using lw by (simp add: letterWord_def)
      have b1: "cell (board s1) a b = w ! spanIndex d x y a b" using c1 os nb by simp
      show ?thesis
      proof (cases "cell (other d s0) a b = 0")
        case True
        with own0 stray have "notLetter (cell (board s0) a b)" by simp
        moreover have "cell (board c') a b = CHR '' ''"
          using cc os True mt(2) oth1 by simp
        ultimately show ?thesis using blank by simp
      next
        case False
        with claims have "\<not> notLetter (cell (board s0) a b)" by simp
        with fit blank have b0: "cell (board s0) a b = w ! spanIndex d x y a b" by auto
        have "cell (board t) a b = cell (board s1) a b" using ct b1 letter by auto
        moreover have "cell (board c') a b = cell (board t) a b"
          using cc os False mt(2) oth1 by simp
        ultimately show ?thesis using b0 b1 by simp
      qed
    next
      case os: False
      show ?thesis
      proof (cases "(a, b) = beforeCell d x y \<or> (a, b) = afterCell d x y (length w)")
        case True
        from accepted_cells(2)[OF acc v True] have nl0: "notLetter (cell (board s0) a b)" .
        have "cell (board s1) a b = CHR ''*''" using c1 True by auto
        with ct star have "notLetter (cell (board t) a b)" by auto
        with cc os blank have "notLetter (cell (board c') a b)" by auto
        with nl0 show ?thesis by simp
      next
        case False
        then have "cell (board s1) a b = cell (board s0) a b" using c1 os by auto
        moreover have "cell (board c') a b = cell (board t) a b" using cc os False by auto
        ultimately show ?thesis using ct by auto
      qed
    qed
  qed
  show ?thesis
    unfolding restored_def using wfc dims maps used cnt board by simp
qed

lemma NewCrossword_tidy: "NewCrossword wd ht = Some c \<Longrightarrow> tidy c"
proof -
  assume n: "NewCrossword wd ht = Some c"
  then have c: "c = \<lparr> board = replicate (nat ht) (replicate (nat wd) CHR '' ''),
                  hWords = replicate (nat ht) (replicate (nat wd) 0),
                  vWords = replicate (nat ht) (replicate (nat wd) 0),
                  width = wd, height = ht, usedWords = Map.empty, placements = [],
                  hCount = 0, vCount = 0 \<rparr>"
    by (auto simp: NewCrossword_def split: if_splits)
  have "cell (board c) x y = CHR '' ''" if "isValidPosition c x y" for x y
    using that by (auto simp: c cell_def isValidPosition_def)
  then have "noStrayLetters c" by (simp add: noStrayLetters_def notLetter_def)
  moreover have "cell (hWords c) x y = 0 \<and> cell (vWords c) x y = 0" if "isValidPosition c x y" for x y
    using that by (auto simp: c cell_def isValidPosition_def)
  then have "stampsNonneg c" by (simp add: stampsNonneg_def)
  moreover have "0 \<le> hCount c" "0 \<le> vCount c" by (simp_all add: c)
  ultimately show ?thesis using NewCrossword_wellFormed[OF n] by (simp add: tidy_def)
qed

subsection \<open>The undo of one commit, exactly\<close>

text \<open>\<open>removeWord\<close> in three steps: the letters, the cell before the span, the cell
  after it. Whether a boundary cell is cleared only depends on which cells hold
  letters, and those are the same before the commit and after the letters are
  removed again.\<close>

lemma blocked_letter:
  "blocked c x y \<longleftrightarrow> isValidPosition c x y \<and> \<not> notLetter (cell (board c) x y)"
  by (auto simp: blocked_def notLetter_def)

lemma hasAdjacentWords_letterBeside: "hasAdjacentWords c a b = letterBeside c a b"
  by (auto simp: hasAdjacentWords_def letterBeside_def letterAt_def blocked_letter)

lemma hasAdjacentWords_cong:
  assumes "width c' = width c" "height c' = height c"
    and "\<And>a b. isValidPosition c a b \<Longrightarrow>
           notLetter (cell (board c') a b) = notLetter (cell (board c) a b)"
  shows "hasAdjacentWords c' x y = hasAdjacentWords c x y"
proof -
  have "blocked c' a b = blocked c a b" for a b
    using assms by (auto simp: blocked_letter isValidPosition_def)
  then show ?thesis by (simp add: hasAdjacentWords_def)
qed

lemma removeWord_exact:
  assumes "wellFormed c" "spanValid c d x y (length w)"
  shows "\<exists>c1 c2 c'. removeWord c w x y d = Some c' \<and>
           width c1 = width c \<and> height c1 = height c \<and>
           width c2 = width c \<and> height c2 = height c \<and>
           (\<forall>x' y'. isValidPosition c x' y' \<longrightarrow>
              cell (board c1) x' y' =
                (if onSpan d x y (length w) x' y' \<and> cell (other d c) x' y' = 0 then CHR '' ''
                 else cell (board c) x' y') \<and>
              cell (board c2) x' y' =
                (if (x', y') = beforeCell d x y \<and> \<not> hasAdjacentWords c1 x' y' then CHR '' ''
                 else cell (board c1) x' y') \<and>
              cell (board c') x' y' =
                (if (x', y') = afterCell d x y (length w) \<and> \<not> hasAdjacentWords c2 x' y' then CHR '' ''
                 else cell (board c2) x' y'))"
proof -
  let ?c0 = "c\<lparr>usedWords := (usedWords c)(w := None)\<rparr>"
  let ?n = "length w"
  have wf0: "wellFormed ?c0" using assms(1) by (simp add: wellFormed_def)
  have maps0: "board ?c0 = board c" "own d ?c0 = own d c" "other d ?c0 = other d c"
    by (cases d; simp add: own_def other_def)+
  have sv0: "spanValid ?c0 d x y ?n"
    using assms(2) by (simp add: spanValid_def isValidPosition_def)
  from removeLetters_spec[OF wf0 sv0] obtain c1 where
    c1: "removeLetters ?c0 d x y ?n = Some c1 \<and> wellFormed c1 \<and>
           sameMeta ?c0 c1 \<and> other d c1 = other d ?c0 \<and>
           (\<forall>x' y'. isValidPosition ?c0 x' y' \<longrightarrow>
              cell (own d c1) x' y' =
                (if onSpan d x y ?n x' y' then 0 else cell (own d ?c0) x' y') \<and>
              cell (board c1) x' y' =
                (if onSpan d x y ?n x' y' \<and> cell (other d ?c0) x' y' = 0 then CHR '' ''
                 else cell (board ?c0) x' y'))" ..
  then have wf1: "wellFormed c1" by simp
  from removeBlock_spec[OF wf1, of "fst (beforeCell d x y)" "snd (beforeCell d x y)"]
  obtain c2 where
    c2: "removeBlock c1 (fst (beforeCell d x y)) (snd (beforeCell d x y)) = Some c2 \<and> wellFormed c2 \<and>
         sameMeta c1 c2 \<and> hWords c2 = hWords c1 \<and> vWords c2 = vWords c1 \<and>
           (\<forall>x' y'. isValidPosition c1 x' y' \<longrightarrow>
              cell (board c2) x' y' =
                (if x' = fst (beforeCell d x y) \<and> y' = snd (beforeCell d x y) \<and>
                    \<not> hasAdjacentWords c1 (fst (beforeCell d x y)) (snd (beforeCell d x y))
                 then CHR '' '' else cell (board c1) x' y'))" ..
  then have wf2: "wellFormed c2" by simp
  from removeBlock_spec[OF wf2, of "fst (afterCell d x y ?n)" "snd (afterCell d x y ?n)"]
  obtain c3 where
    c3: "removeBlock c2 (fst (afterCell d x y ?n)) (snd (afterCell d x y ?n)) = Some c3 \<and> wellFormed c3 \<and>
         sameMeta c2 c3 \<and> hWords c3 = hWords c2 \<and> vWords c3 = vWords c2 \<and>
           (\<forall>x' y'. isValidPosition c2 x' y' \<longrightarrow>
              cell (board c3) x' y' =
                (if x' = fst (afterCell d x y ?n) \<and> y' = snd (afterCell d x y ?n) \<and>
                    \<not> hasAdjacentWords c2 (fst (afterCell d x y ?n)) (snd (afterCell d x y ?n))
                 then CHR '' '' else cell (board c2) x' y'))" ..
  have rw: "removeWord c w x y d = Some c3"
    using c1 c2 c3 by (simp add: removeWord_unfold)
  have m1: "sameMeta ?c0 c1" and m2: "sameMeta c1 c2" and m3: "sameMeta c2 c3"
    using c1 c2 c3 by simp_all
  have dims: "width c1 = width c" "height c1 = height c" "width c2 = width c" "height c2 = height c"
    using m1 m2 by (simp_all add: sameMeta_def)
  have cells: "cell (board c1) x' y' =
                (if onSpan d x y (length w) x' y' \<and> cell (other d c) x' y' = 0 then CHR '' ''
                 else cell (board c) x' y') \<and>
              cell (board c2) x' y' =
                (if (x', y') = beforeCell d x y \<and> \<not> hasAdjacentWords c1 x' y' then CHR '' ''
                 else cell (board c1) x' y') \<and>
              cell (board c3) x' y' =
                (if (x', y') = afterCell d x y (length w) \<and> \<not> hasAdjacentWords c2 x' y' then CHR '' ''
                 else cell (board c2) x' y')"
    if val: "isValidPosition c x' y'" for x' y'
  proof -
    have v0: "isValidPosition ?c0 x' y'" using val by (simp add: isValidPosition_def)
    have v1: "isValidPosition c1 x' y'" using v0 sameMeta_valid[OF m1] by simp
    have v2: "isValidPosition c2 x' y'" using v1 sameMeta_valid[OF m2] by simp
    have a: "cell (board c1) x' y' =
                (if onSpan d x y (length w) x' y' \<and> cell (other d c) x' y' = 0 then CHR '' ''
                 else cell (board c) x' y')"
      using c1 v0 maps0 by simp
    have b: "cell (board c2) x' y' =
                (if (x', y') = beforeCell d x y \<and> \<not> hasAdjacentWords c1 x' y' then CHR '' ''
                 else cell (board c1) x' y')"
      using c2 v1 by (auto simp: prod_eq_iff)
    have e: "cell (board c3) x' y' =
                (if (x', y') = afterCell d x y (length w) \<and> \<not> hasAdjacentWords c2 x' y' then CHR '' ''
                 else cell (board c2) x' y')"
      using c3 v2 by (auto simp: prod_eq_iff)
    from a b e show ?thesis by blast
  qed
  show ?thesis
    by (intro exI[of _ c1] exI[of _ c2] exI[of _ c3]) (use rw dims cells in blast)
qed

lemma undo_exact:
  assumes td: "tidy s0" and eff: "effective s0 (w, x, y, d)"
  shows "\<exists>s1 c'. putWord s0 w x y d = Some s1 \<and> removeWord s1 w x y d = Some c' \<and>
     hWords c' = hWords s0 \<and> vWords c' = vWords s0 \<and> usedWords c' = usedWords s0 \<and>
     (\<forall>a b. isValidPosition s0 a b \<longrightarrow>
        cell (board c') a b =
          (if (a, b) = beforeCell d x y \<or> (a, b) = afterCell d x y (length w)
           then (if hasAdjacentWords s0 a b then CHR ''*'' else CHR '' '')
           else cell (board s0) a b))"
proof -
  from td have wf0: "wellFormed s0" and cl0: "claimsHoldLetters s0" and ns0: "noStrayLetters s0"
    by (simp_all add: tidy_def)
  from eff have lw: "letterWord w" and acc: "0 \<le> canBePlaced s0 w x y d"
    and un: "usedWords s0 w = None" and free: "spanFree s0 w x y d" by simp_all
  from un have un': "usedWords s0 w \<noteq> Some True" by simp
  from putWord_effect[OF wf0 acc un'] obtain s1 where
    put: "putWord s0 w x y d = Some s1" and wf1: "wellFormed s1"
    and dim1: "width s1 = width s0" "height s1 = height s0"
    and oth1: "other d s1 = other d s0"
    and cells1: "\<And>a b. isValidPosition s0 a b \<Longrightarrow>
              cell (board s1) a b =
                (if (a, b) = afterCell d x y (length w) \<or> (a, b) = beforeCell d x y
                 then CHR ''*''
                 else if onSpan d x y (length w) a b then w ! spanIndex d x y a b
                 else cell (board s0) a b)"
    by auto
  have sv1: "spanValid s1 d x y (length w)"
    using canBePlaced_accepted(1)[OF acc] dim1 by (simp add: spanValid_def isValidPosition_def)
  from removeWord_exact[OF wf1 sv1] obtain c1 c2 c' where
    rem: "removeWord s1 w x y d = Some c'"
    and dimc: "width c1 = width s1" "height c1 = height s1"
              "width c2 = width s1" "height c2 = height s1"
    and cellsr: "\<And>a b. isValidPosition s1 a b \<Longrightarrow>
              cell (board c1) a b =
                (if onSpan d x y (length w) a b \<and> cell (other d s1) a b = 0 then CHR '' ''
                 else cell (board s1) a b) \<and>
              cell (board c2) a b =
                (if (a, b) = beforeCell d x y \<and> \<not> hasAdjacentWords c1 a b then CHR '' ''
                 else cell (board c1) a b) \<and>
              cell (board c') a b =
                (if (a, b) = afterCell d x y (length w) \<and> \<not> hasAdjacentWords c2 a b then CHR '' ''
                 else cell (board c2) a b)"
    by blast
  have valid: "isValidPosition s1 a b" if "isValidPosition s0 a b" for a b
    using that dim1 by (simp add: isValidPosition_def)
  have blank: "notLetter CHR '' ''" and star: "notLetter CHR ''*''"
    by (simp_all add: notLetter_def)
  \<comment> \<open>after the letters are removed: the span is as it was, the two ends hold a marker\<close>
  have b1: "cell (board c1) a b =
      (if (a, b) = beforeCell d x y \<or> (a, b) = afterCell d x y (length w) then CHR ''*''
       else cell (board s0) a b)"
    if v: "isValidPosition s0 a b" for a b
  proof (cases "onSpan d x y (length w) a b")
    case os: True
    note nb = onSpan_not_before[OF os] onSpan_not_after[OF os]
    note claims = cl0[unfolded claims_dir[of s0 d], rule_format, OF v]
    note stray = ns0[unfolded tidy_dir[of s0 d], rule_format, OF v]
    have own0: "cell (own d s0) a b = 0" by (rule spanFree_onSpan[OF free os])
    from accepted_cells(1)[OF acc v os]
    have fit: "cell (board s0) a b = CHR '' '' \<or> cell (board s0) a b = w ! spanIndex d x y a b" .
    have "w ! spanIndex d x y a b \<in> set w" using spanIndex_less[OF os] by simp
    then have letter: "\<not> notLetter (w ! spanIndex d x y a b)"
      using lw by (simp add: letterWord_def)
    show ?thesis
    proof (cases "cell (other d s0) a b = 0")
      case True
      with own0 stray have "notLetter (cell (board s0) a b)" by simp
      with fit letter have "cell (board s0) a b = CHR '' ''" by auto
      moreover have "cell (board c1) a b = CHR '' ''"
        using cellsr[OF valid[OF v]] os True oth1 by simp
      ultimately show ?thesis using nb by simp
    next
      case False
      with claims have "\<not> notLetter (cell (board s0) a b)" by simp
      with fit blank have "cell (board s0) a b = w ! spanIndex d x y a b" by auto
      moreover have "cell (board c1) a b = w ! spanIndex d x y a b"
        using cellsr[OF valid[OF v]] cells1[OF v] os nb False oth1 by simp
      ultimately show ?thesis using nb by simp
    qed
  next
    case False
    then show ?thesis using cellsr[OF valid[OF v]] cells1[OF v] by auto
  qed
  have ends: "notLetter (cell (board s0) a b)"
    if "isValidPosition s0 a b" "(a, b) = beforeCell d x y \<or> (a, b) = afterCell d x y (length w)"
    for a b
    using accepted_cells(2)[OF acc that] .
  have l1: "notLetter (cell (board c1) a b) = notLetter (cell (board s0) a b)"
    if v: "isValidPosition s0 a b" for a b
    using b1[OF v] ends[OF v] star by auto
  have b2: "cell (board c2) a b =
      (if (a, b) = beforeCell d x y \<and> \<not> hasAdjacentWords c1 a b then CHR '' ''
       else cell (board c1) a b)"
    if v: "isValidPosition s0 a b" for a b
    using cellsr[OF valid[OF v]] by simp
  have l2: "notLetter (cell (board c2) a b) = notLetter (cell (board s0) a b)"
    if v: "isValidPosition s0 a b" for a b
    using b2[OF v] b1[OF v] l1[OF v] ends[OF v] blank star by auto
  have h1: "hasAdjacentWords c1 a b = hasAdjacentWords s0 a b" for a b
    by (rule hasAdjacentWords_cong) (use dimc dim1 l1 in simp_all)
  have h2: "hasAdjacentWords c2 a b = hasAdjacentWords s0 a b" for a b
    by (rule hasAdjacentWords_cong) (use dimc dim1 l2 in simp_all)
  have ne: "beforeCell d x y \<noteq> afterCell d x y (length w)"
    by (cases d) (simp_all add: beforeCell_def afterCell_def spanCell_def)
  have board: "cell (board c') a b =
          (if (a, b) = beforeCell d x y \<or> (a, b) = afterCell d x y (length w)
           then (if hasAdjacentWords s0 a b then CHR ''*'' else CHR '' '')
           else cell (board s0) a b)"
    if v: "isValidPosition s0 a b" for a b
  proof -
    have e: "cell (board c') a b =
        (if (a, b) = afterCell d x y (length w) \<and> \<not> hasAdjacentWords s0 a b then CHR '' ''
         else cell (board c2) a b)"
      using cellsr[OF valid[OF v]] h2 by simp
    show ?thesis using e b2[OF v] b1[OF v] h1 ne by auto
  qed
  from undo_restores[OF td eff put restored_refl[OF wf1] rem]
  have "hWords c' = hWords s0" "vWords c' = vWords s0" "usedWords c' = usedWords s0"
    by (simp_all add: restored_def)
  with put rem board show ?thesis by blast
qed

lemma counted_cells_cross:
  assumes "tidy c" "letterWord w" "0 \<le> canBePlaced c w x y d" "spanFree c w x y d"
    and j: "j \<in> set (matchingCells c w x y d)"
  shows "0 < cell (other d c) (fst (spanCell d x y (int j))) (snd (spanCell d x y (int j)))"
proof -
  let ?a = "fst (spanCell d x y (int j))" and ?b = "snd (spanCell d x y (int j))"
  from j have lt: "j < length w" and m: "cell (board c) ?a ?b = w ! j"
    by (simp_all add: matchingCells_def)
  from canBePlaced_accepted(1)[OF assms(3)] lt have v: "isValidPosition c ?a ?b"
    by (simp add: spanValid_def)
  from lt assms(2) have "\<not> notLetter (w ! j)" by (simp add: letterWord_def)
  with m have letter: "\<not> notLetter (cell (board c) ?a ?b)" by simp
  from assms(4) lt have own0: "cell (own d c) ?a ?b = 0" by (simp add: spanFree_def)
  from assms(1) have ns: "noStrayLetters c" and nn: "stampsNonneg c" by (simp_all add: tidy_def)
  from ns[unfolded tidy_dir[of c d], rule_format, OF v] own0 letter
  have "cell (other d c) ?a ?b \<noteq> 0" by auto
  moreover from nn[unfolded nonneg_dir[of c d], rule_format, OF v]
  have "0 \<le> cell (other d c) ?a ?b" by simp
  ultimately show ?thesis by simp
qed

lemma fresh_no_neighbours:
  assumes "NewCrossword wd ht = Some c"
  shows "\<not> hasAdjacentWords c a b" "isValidPosition c a b \<Longrightarrow> cell (board c) a b = CHR '' ''"
proof -
  from assms have c: "c = \<lparr> board = replicate (nat ht) (replicate (nat wd) CHR '' ''),
                  hWords = replicate (nat ht) (replicate (nat wd) 0),
                  vWords = replicate (nat ht) (replicate (nat wd) 0),
                  width = wd, height = ht, usedWords = Map.empty, placements = [],
                  hCount = 0, vCount = 0 \<rparr>"
    by (auto simp: NewCrossword_def split: if_splits)
  have bl: "cell (board c) x y = CHR '' ''" if "isValidPosition c x y" for x y
    using that by (auto simp: c cell_def isValidPosition_def)
  then have "\<not> blocked c x y" for x y by (auto simp: blocked_def)
  then show "\<not> hasAdjacentWords c a b" by (simp add: hasAdjacentWords_def)
  show "isValidPosition c a b \<Longrightarrow> cell (board c) a b = CHR '' ''" by (rule bl)
qed

lemma undo_on_fresh_grid:
  assumes n: "NewCrossword wd ht = Some c0" and eff: "effective c0 (w, x, y, d)"
  shows "\<exists>c1 c'. putWord c0 w x y d = Some c1 \<and> removeWord c1 w x y d = Some c' \<and>
     board c' = board c0 \<and> hWords c' = hWords c0 \<and> vWords c' = vWords c0 \<and>
     usedWords c' = usedWords c0"
proof -
  note td = NewCrossword_tidy[OF n]
  from undo_exact[OF td eff] obtain c1 c' where
    put: "putWord c0 w x y d = Some c1" and rem: "removeWord c1 w x y d = Some c'"
    and maps: "hWords c' = hWords c0" "vWords c' = vWords c0" "usedWords c' = usedWords c0"
    and cells: "\<And>a b. isValidPosition c0 a b \<Longrightarrow>
        cell (board c') a b =
          (if (a, b) = beforeCell d x y \<or> (a, b) = afterCell d x y (length w)
           then (if hasAdjacentWords c0 a b then CHR ''*'' else CHR '' '')
           else cell (board c0) a b)"
    by blast
  from td have wf0: "wellFormed c0" by (simp add: tidy_def)
  from eff have acc: "0 \<le> canBePlaced c0 w x y d" by simp
  from putWord_wf[OF wf0 acc put] have wf1: "wellFormed c1"
    and d1: "width c1 = width c0" "height c1 = height c0" by simp_all
  have sv: "spanValid c1 d x y (length w)"
    using canBePlaced_accepted(1)[OF acc] d1 by (simp add: spanValid_def isValidPosition_def)
  from removeWord_spec[OF wf1 sv] rem have wfc: "wellFormed c'"
    and dc: "width c' = width c1" "height c' = height c1" by auto
  have "board c' = board c0"
  proof (rule shaped_ext)
    show "shaped (board c') (height c0) (width c0)"
      using wfc dc d1 by (simp add: wellFormed_def)
    show "shaped (board c0) (height c0) (width c0)"
      using wf0 by (simp add: wellFormed_def)
    fix a b assume "0 \<le> a" "a < height c0" "0 \<le> b" "b < width c0"
    then have v: "isValidPosition c0 a b" by (simp add: isValidPosition_def)
    show "cell (board c') a b = cell (board c0) a b"
      using cells[OF v] fresh_no_neighbours[OF n, of a b] v by simp
  qed
  with put rem maps show ?thesis by blast
qed

subsection \<open>Nested commits and undos\<close>

text \<open>Along a LIFO sequence a marker is only cleared where no neighbouring cell holds
  a letter, and the letters on the board are those of the start and of the words still
  to be undone.\<close>

lemma hasAdjacentWords_mono:
  assumes "width c' = width c" "height c' = height c"
    and "\<And>a b. isValidPosition c a b \<Longrightarrow>
           notLetter (cell (board c') a b) \<Longrightarrow> notLetter (cell (board c) a b)"
  shows "hasAdjacentWords c x y \<Longrightarrow> hasAdjacentWords c' x y"
proof -
  have "blocked c a b \<Longrightarrow> blocked c' a b" for a b
    using assms by (auto simp: blocked_letter isValidPosition_def)
  then show "hasAdjacentWords c x y \<Longrightarrow> hasAdjacentWords c' x y"
    by (auto simp: hasAdjacentWords_def)
qed

lemma restored_letters:
  assumes "restored s t" "isValidPosition s a b"
  shows "notLetter (cell (board t) a b) = notLetter (cell (board s) a b)"
proof -
  from assms have "cell (board t) a b = cell (board s) a b \<or>
      (notLetter (cell (board s) a b) \<and> notLetter (cell (board t) a b))"
    by (simp add: restored_def)
  then show ?thesis by auto
qed

lemma restored_neighbours:
  assumes "restored s t"
  shows "hasAdjacentWords t x y = hasAdjacentWords s x y"
proof (rule hasAdjacentWords_cong)
  show "width t = width s" "height t = height s" using assms by (simp_all add: restored_def)
  show "notLetter (cell (board t) a b) = notLetter (cell (board s) a b)"
    if "isValidPosition s a b" for a b
    by (rule restored_letters[OF assms that])
qed

lemma settled_refl: "wellFormed s \<Longrightarrow> settled s s"
  by (simp add: settled_def restored_refl)

lemma settled_trans:
  assumes "settled s t" "settled t u"
  shows "settled s u"
proof -
  from assms have r: "restored s t" "restored t u" by (simp_all add: settled_def)
  have "\<not> hasAdjacentWords s x y"
    if v: "isValidPosition s x y" and ne: "cell (board u) x y \<noteq> cell (board s) x y"
      and bl: "cell (board u) x y = CHR '' ''" for x y
  proof (cases "cell (board u) x y = cell (board t) x y")
    case True
    with ne bl assms(1) v show ?thesis by (simp add: settled_def)
  next
    case False
    have vt: "isValidPosition t x y" using v r(1) by (simp add: restored_def isValidPosition_def)
    from False bl assms(2) vt have "\<not> hasAdjacentWords t x y" by (simp add: settled_def)
    then show ?thesis using restored_neighbours[OF r(1)] by simp
  qed
  then have "\<forall>x y. isValidPosition s x y \<longrightarrow>
        cell (board u) x y \<noteq> cell (board s) x y \<longrightarrow> cell (board u) x y = CHR '' '' \<longrightarrow>
        \<not> hasAdjacentWords s x y" by blast
  with restored_trans[OF r] show ?thesis unfolding settled_def by blast
qed

lemma undo_settles:
  assumes td: "tidy s0" and eff: "effective s0 (w, x, y, d)"
    and put: "putWord s0 w x y d = Some s1"
    and st: "settled s1 t"
    and rem: "removeWord t w x y d = Some c'"
  shows "settled s0 c'"
proof -
  from st have rs: "restored s1 t" by (simp add: settled_def)
  from st have clr: "\<And>a b. isValidPosition s1 a b \<Longrightarrow>
        cell (board t) a b \<noteq> cell (board s1) a b \<Longrightarrow> cell (board t) a b = CHR '' '' \<Longrightarrow>
        \<not> hasAdjacentWords s1 a b"
    by (simp add: settled_def)
  from td have wf0: "wellFormed s0" and cl0: "claimsHoldLetters s0" and ns0: "noStrayLetters s0"
    by (simp_all add: tidy_def)
  from eff have lw: "letterWord w" and acc: "0 \<le> canBePlaced s0 w x y d"
    and un: "usedWords s0 w = None" and free: "spanFree s0 w x y d" by simp_all
  from un have un': "usedWords s0 w \<noteq> Some True" by simp
  from putWord_effect[OF wf0 acc un'] put
  have dim1: "width s1 = width s0" "height s1 = height s0"
    and oth1: "other d s1 = other d s0"
    and cells1: "\<And>a b. isValidPosition s0 a b \<Longrightarrow>
              cell (board s1) a b =
                (if (a, b) = afterCell d x y (length w) \<or> (a, b) = beforeCell d x y
                 then CHR ''*''
                 else if onSpan d x y (length w) a b then w ! spanIndex d x y a b
                 else cell (board s0) a b)"
    by auto
  from rs have wft: "wellFormed t" and dimt: "width t = width s1" "height t = height s1"
    and mapst: "hWords t = hWords s1" "vWords t = vWords s1"
    by (simp_all add: restored_def)
  have otht: "other d t = other d s0"
    using mapst oth1 by (cases d; simp add: other_def)
  have svt: "spanValid t d x y (length w)"
    using canBePlaced_accepted(1)[OF acc] dimt dim1 by (simp add: spanValid_def isValidPosition_def)
  from removeWord_exact[OF wft svt] rem obtain c1 c2 where
    dimc: "width c1 = width t" "height c1 = height t"
          "width c2 = width t" "height c2 = height t"
    and cellsr: "\<And>a b. isValidPosition t a b \<Longrightarrow>
              cell (board c1) a b =
                (if onSpan d x y (length w) a b \<and> cell (other d t) a b = 0 then CHR '' ''
                 else cell (board t) a b) \<and>
              cell (board c2) a b =
                (if (a, b) = beforeCell d x y \<and> \<not> hasAdjacentWords c1 a b then CHR '' ''
                 else cell (board c1) a b) \<and>
              cell (board c') a b =
                (if (a, b) = afterCell d x y (length w) \<and> \<not> hasAdjacentWords c2 a b then CHR '' ''
                 else cell (board c2) a b)"
    by auto
  have valid: "isValidPosition s1 a b" "isValidPosition t a b" if "isValidPosition s0 a b" for a b
    using that dim1 dimt by (simp_all add: isValidPosition_def)
  have blank: "notLetter CHR '' ''" and star: "notLetter CHR ''*''"
    by (simp_all add: notLetter_def)
  have ends: "notLetter (cell (board s0) a b)"
    if "isValidPosition s0 a b" "(a, b) = beforeCell d x y \<or> (a, b) = afterCell d x y (length w)"
    for a b
    using accepted_cells(2)[OF acc that] .
  \<comment> \<open>the letters of \<open>s0\<close> are letters of \<open>s1\<close>\<close>
  have grow: "notLetter (cell (board s0) a b)"
    if v: "isValidPosition s0 a b" and n: "notLetter (cell (board s1) a b)" for a b
  proof (cases "onSpan d x y (length w) a b")
    case os: True
    note nb = onSpan_not_before[OF os] onSpan_not_after[OF os]
    have "w ! spanIndex d x y a b \<in> set w" using spanIndex_less[OF os] by simp
    then have "\<not> notLetter (w ! spanIndex d x y a b)" using lw by (simp add: letterWord_def)
    with n cells1[OF v] os nb show ?thesis by simp
  next
    case False
    then show ?thesis using n cells1[OF v] ends[OF v] by (auto split: if_splits)
  qed
  have h01: "hasAdjacentWords s0 a b \<Longrightarrow> hasAdjacentWords s1 a b" for a b
    by (rule hasAdjacentWords_mono[of s1 s0]) (use dim1 grow in simp_all)
  \<comment> \<open>the span after the letters are removed\<close>
  have span: "cell (board c1) a b = cell (board s0) a b"
    if v: "isValidPosition s0 a b" and os: "onSpan d x y (length w) a b" for a b
  proof -
    note nb = onSpan_not_before[OF os] onSpan_not_after[OF os]
    note claims = cl0[unfolded claims_dir[of s0 d], rule_format, OF v]
    note stray = ns0[unfolded tidy_dir[of s0 d], rule_format, OF v]
    have own0: "cell (own d s0) a b = 0" by (rule spanFree_onSpan[OF free os])
    from accepted_cells(1)[OF acc v os]
    have fit: "cell (board s0) a b = CHR '' '' \<or> cell (board s0) a b = w ! spanIndex d x y a b" .
    have "w ! spanIndex d x y a b \<in> set w" using spanIndex_less[OF os] by simp
    then have letter: "\<not> notLetter (w ! spanIndex d x y a b)"
      using lw by (simp add: letterWord_def)
    have s1c: "cell (board s1) a b = w ! spanIndex d x y a b" using cells1[OF v] os nb by simp
    show ?thesis
    proof (cases "cell (other d s0) a b = 0")
      case True
      with own0 stray have "notLetter (cell (board s0) a b)" by simp
      with fit letter have "cell (board s0) a b = CHR '' ''" by auto
      moreover have "cell (board c1) a b = CHR '' ''"
        using cellsr[OF valid(2)[OF v]] os True otht by simp
      ultimately show ?thesis by simp
    next
      case False
      with claims have "\<not> notLetter (cell (board s0) a b)" by simp
      with fit blank have b0: "cell (board s0) a b = w ! spanIndex d x y a b" by auto
      from restored_letters[OF rs valid(1)[OF v]] s1c letter
      have "\<not> notLetter (cell (board t) a b)" by simp
      with rs valid(1)[OF v] have "cell (board t) a b = cell (board s1) a b"
        by (auto simp: restored_def)
      moreover have "cell (board c1) a b = cell (board t) a b"
        using cellsr[OF valid(2)[OF v]] os False otht by simp
      ultimately show ?thesis using b0 s1c by simp
    qed
  qed
  have off: "cell (board c1) a b = cell (board t) a b"
    if v: "isValidPosition s0 a b" and os: "\<not> onSpan d x y (length w) a b" for a b
    using cellsr[OF valid(2)[OF v]] os by simp
  have l1: "notLetter (cell (board c1) a b) = notLetter (cell (board s0) a b)"
    if v: "isValidPosition s0 a b" for a b
  proof (cases "onSpan d x y (length w) a b")
    case True
    then show ?thesis using span[OF v] by simp
  next
    case False
    have "notLetter (cell (board c1) a b) = notLetter (cell (board s1) a b)"
      using off[OF v False] restored_letters[OF rs valid(1)[OF v]] by simp
    then show ?thesis using cells1[OF v] False ends[OF v] star by auto
  qed
  have b2: "cell (board c2) a b =
      (if (a, b) = beforeCell d x y \<and> \<not> hasAdjacentWords c1 a b then CHR '' ''
       else cell (board c1) a b)"
    if v: "isValidPosition s0 a b" for a b
    using cellsr[OF valid(2)[OF v]] by simp
  have l2: "notLetter (cell (board c2) a b) = notLetter (cell (board s0) a b)"
    if v: "isValidPosition s0 a b" for a b
    using b2[OF v] l1[OF v] ends[OF v] blank by auto
  have h1: "hasAdjacentWords c1 a b = hasAdjacentWords s0 a b" for a b
    by (rule hasAdjacentWords_cong) (use dimc dimt dim1 l1 in simp_all)
  have h2: "hasAdjacentWords c2 a b = hasAdjacentWords s0 a b" for a b
    by (rule hasAdjacentWords_cong) (use dimc dimt dim1 l2 in simp_all)
  have fin: "cell (board c') a b =
      (if ((a, b) = beforeCell d x y \<or> (a, b) = afterCell d x y (length w)) \<and>
          \<not> hasAdjacentWords s0 a b then CHR '' ''
       else cell (board c1) a b)"
    if v: "isValidPosition s0 a b" for a b
    using cellsr[OF valid(2)[OF v]] h1 h2 by auto
  have "\<not> hasAdjacentWords s0 a b"
    if v: "isValidPosition s0 a b" and ne: "cell (board c') a b \<noteq> cell (board s0) a b"
      and bl: "cell (board c') a b = CHR '' ''" for a b
  proof (cases "onSpan d x y (length w) a b")
    case os: True
    note nb = onSpan_not_before[OF os] onSpan_not_after[OF os]
    from fin[OF v] nb span[OF v os] ne show ?thesis by simp
  next
    case False
    show ?thesis
    proof (rule ccontr)
      assume "\<not> \<not> hasAdjacentWords s0 a b"
      then have adj: "hasAdjacentWords s0 a b" by simp
      with fin[OF v] off[OF v False] bl have tb: "cell (board t) a b = CHR '' ''" by simp
      have "cell (board s1) a b \<noteq> CHR '' ''"
      proof (cases "(a, b) = beforeCell d x y \<or> (a, b) = afterCell d x y (length w)")
        case True
        then show ?thesis using cells1[OF v] by auto
      next
        case nb: False
        then have "cell (board s1) a b = cell (board s0) a b" using cells1[OF v] False by auto
        then show ?thesis using ne bl by simp
      qed
      with tb clr[OF valid(1)[OF v]] have "\<not> hasAdjacentWords s1 a b" by simp
      with h01[OF adj] show False by simp
    qed
  qed
  then have "\<forall>a b. isValidPosition s0 a b \<longrightarrow>
        cell (board c') a b \<noteq> cell (board s0) a b \<longrightarrow> cell (board c') a b = CHR '' '' \<longrightarrow>
        \<not> hasAdjacentWords s0 a b" by blast
  with undo_restores[OF td eff put rs rem] show ?thesis unfolding settled_def by blast
qed

lemma bracketed_settled: "bracketed c0 st c \<Longrightarrow> settled c c' \<Longrightarrow> bracketed c0 st c'"
proof (cases st)
  case Nil
  assume "bracketed c0 st c" "settled c c'"
  then show ?thesis using Nil settled_trans by auto
next
  case (Cons a st')
  assume b: "bracketed c0 st c" and e: "settled c c'"
  obtain w x y d where a: "a = (w, x, y, d)" by (cases a) auto
  from b obtain s0 s1 where
    "bracketed c0 st' s0" "tidy s0" "effective s0 (w, x, y, d)" "putWord s0 w x y d = Some s1"
    "settled s1 c"
    unfolding Cons a by auto
  moreover from this e have "settled s1 c'" using settled_trans by blast
  ultimately show ?thesis unfolding Cons a by auto
qed

lemma bracketed_tidy: "tidy c0 \<Longrightarrow> bracketed c0 st c \<Longrightarrow> tidy c"
proof (cases st)
  case Nil
  assume "tidy c0" "bracketed c0 st c"
  then show ?thesis using Nil restored_tidy by (auto simp: settled_def)
next
  case (Cons a st')
  assume s: "tidy c0" and b: "bracketed c0 st c"
  obtain w x y d where a: "a = (w, x, y, d)" by (cases a) auto
  from b obtain s0 s1 where
    s0: "tidy s0" "effective s0 (w, x, y, d)" "putWord s0 w x y d = Some s1"
    and e: "restored s1 c"
    unfolding Cons a by (auto simp: settled_def)
  from putWord_tidy[OF s0] e show ?thesis by (rule restored_tidy)
qed

lemma lifo_bracketed:
  assumes "tidy c0" "lifo effective c0 st c"
  shows "bracketed c0 st c"
  using assms(2)
proof (induction rule: lifo.induct)
  case lifo_start
  from assms(1) show ?case by (simp add: tidy_def settled_refl)
next
  case (lifo_put st c w x y d c')
  from bracketed_tidy[OF assms(1) lifo_put.IH] have s: "tidy c" .
  from putWord_tidy[OF s lifo_put.hyps(2,3)] have "settled c' c'"
    by (simp add: tidy_def settled_refl)
  with lifo_put.IH s lifo_put.hyps(2,3) show ?case by auto
next
  case (lifo_remove w x y d st c c')
  from lifo_remove.IH obtain s0 s1 where
    b: "bracketed c0 st s0" and s0: "tidy s0" and eff: "effective s0 (w, x, y, d)"
    and put: "putWord s0 w x y d = Some s1" and e: "settled s1 c"
    by auto
  from undo_settles[OF s0 eff put e lifo_remove.hyps(2)] have "settled s0 c'" .
  with b show ?case by (rule bracketed_settled)
qed

lemma lifo_tidy: "tidy c0 \<Longrightarrow> lifo effective c0 st c \<Longrightarrow> tidy c"
  using bracketed_tidy lifo_bracketed by blast

subsection \<open>The search driver\<close>

lemma putWord_recorded:
  assumes "putWord c w x y d = Some c'" "recorded c"
  shows "recorded c'"
proof (cases "usedWords c w = Some True")
  case True
  then show ?thesis using assms by (simp add: putWord_def)
next
  case False
  have nw: "w \<notin> Word ` set (placements c)"
  proof
    assume "w \<in> Word ` set (placements c)"
    then obtain p where "p \<in> set (placements c)" "Word p = w" by auto
    with assms(2) have "usedWords c w = Some True" by (auto simp: recorded_def)
    with False show False by simp
  qed
  from putWord_frame(1,2)[OF assms(1) False] assms(2) nw show ?thesis
    by (auto simp: recorded_def placement_def)
qed

declare generate.simps [simp del]

lemma generate_expired:
  "pos < length words \<Longrightarrow> generate words rs pos (0, k, c) = Some (False, 0, k, c)"
  by (subst generate.simps) simp

lemma generate_done:
  "length words \<le> pos \<Longrightarrow> generate words rs pos (t, k, c) = Some (True, t, k, c)"
  by (subst generate.simps) simp

lemma generate_skip:
  "pos < length words \<Longrightarrow> 0 < t \<Longrightarrow> findBestPosition c (words ! pos) (rs k) = None \<Longrightarrow>
   generate words rs pos (t, k, c) = generate words rs (Suc pos) (t - 1, k, c)"
  by (subst generate.simps) simp

lemma generate_commit:
  "pos < length words \<Longrightarrow> 0 < t \<Longrightarrow> findBestPosition c (words ! pos) (rs k) = Some p \<Longrightarrow>
   putWord c (words ! pos) (X p) (Y p) (Dir p) = Some c1 \<Longrightarrow>
   generate words rs (Suc pos) (t - 1, Suc k, c1) = Some (b, t2, k2, c2) \<Longrightarrow>
   generate words rs pos (t, k, c) =
     (if b then Some (True, t2, k2, c2)
      else case removeWord c2 (words ! pos) (X p) (Y p) (Dir p) of
             None \<Rightarrow> None
           | Some c3 \<Rightarrow> generate words rs (Suc pos) (t2, k2, c3))"
  by (subst generate.simps) (simp split: option.splits)

lemma generate_post:
  assumes "wellFormed c"
  shows "\<exists>b t' k' c'. generate words rs pos (t, k, c) = Some (b, t', k', c') \<and>
           wellFormed c' \<and> width c' = width c \<and> height c' = height c \<and>
           (\<not> b \<longrightarrow> t' = 0 \<and> pos < length words) \<and>
           (recorded c \<longrightarrow> distinct (map Word (placements c')) \<and> (b \<longrightarrow> recorded c'))"
  using assms
proof (induction "length words - pos" arbitrary: pos t k c)
  case 0
  then have "length words \<le> pos" by simp
  then show ?case using "0.prems" by (auto simp: generate_done recorded_def)
next
  case (Suc n)
  then have lt: "pos < length words" and n: "n = length words - Suc pos" by simp_all
  show ?case
  proof (cases "t = 0")
    case True
    then show ?thesis using lt Suc.prems by (auto simp: generate_expired recorded_def)
  next
    case False
    then have t: "0 < t" by simp
    show ?thesis
    proof (cases "findBestPosition c (words ! pos) (rs k)")
      case None
      from Suc.hyps(1)[OF n Suc.prems, of "t - 1" k] lt show ?thesis
        unfolding generate_skip[where rs=rs and k=k, OF lt t None] by auto
    next
      case (Some p)
      let ?w = "words ! pos"
      from findBestPosition_Some(2)[OF Some]
      have acc: "0 \<le> canBePlaced c ?w (X p) (Y p) (Dir p)" by (simp add: score_def)
      from putWord_total[OF Suc.prems acc] obtain c1 where
        put: "putWord c ?w (X p) (Y p) (Dir p) = Some c1" by blast
      from putWord_wf[OF Suc.prems acc put] have wf1: "wellFormed c1"
        and d1: "width c1 = width c" "height c1 = height c" by simp_all
      from Suc.hyps(1)[OF n wf1, of "t - 1" "Suc k"] obtain b t2 k2 c2 where
        g: "generate words rs (Suc pos) (t - 1, Suc k, c1) = Some (b, t2, k2, c2)"
        and wf2: "wellFormed c2" and d2: "width c2 = width c1" "height c2 = height c1"
        and f2: "\<not> b \<longrightarrow> t2 = 0 \<and> Suc pos < length words"
        and r2: "recorded c1 \<longrightarrow> distinct (map Word (placements c2)) \<and> (b \<longrightarrow> recorded c2)"
        by blast
      note step = generate_commit[where rs=rs and k=k, OF lt t Some put g]
      have rec1: "recorded c \<longrightarrow> recorded c1" using putWord_recorded[OF put] by simp
      show ?thesis
      proof (cases b)
        case True
        then show ?thesis using step wf2 d1 d2 r2 rec1 by auto
      next
        case False
        have sv: "spanValid c2 (Dir p) (X p) (Y p) (length ?w)"
          using canBePlaced_accepted(1)[OF acc] d1 d2
          by (simp add: spanValid_def isValidPosition_def)
        from removeWord_total[OF wf2 sv] obtain c3 where
          rem: "removeWord c2 ?w (X p) (Y p) (Dir p) = Some c3" and wf3: "wellFormed c3"
          and d3: "width c3 = width c2" "height c3 = height c2" by blast
        from False f2 have t2: "t2 = 0" and lt2: "Suc pos < length words" by simp_all
        have res: "generate words rs pos (t, k, c) = Some (False, 0, k2, c3)"
          using step False rem t2 generate_expired[OF lt2] by simp
        have "placements c3 = placements c2" using removeWord_frame(1)[OF rem] .
        then show ?thesis using res wf3 d1 d2 d3 r2 rec1 lt by auto
      qed
    qed
  qed
qed

lemma distinct_filter_le1:
  "distinct (map f xs) \<Longrightarrow> length (filter (\<lambda>p. f p = w) xs) \<le> 1"
proof (induction xs)
  case Nil
  then show ?case by simp
next
  case (Cons a xs)
  show ?case
  proof (cases "f a = w")
    case True
    then have "w \<notin> f ` set xs" using Cons.prems by auto
    then have "filter (\<lambda>p. f p = w) xs = []" by (auto simp: filter_empty_conv)
    then show ?thesis using True by simp
  next
    case False
    then show ?thesis using Cons by simp
  qed
qed

lemma GeneratePuzzle_post:
  assumes "wellFormed c"
  shows "\<exists>b c'. GeneratePuzzle c words rs t = Some (b, c') \<and> wellFormed c' \<and>
           (recorded c \<longrightarrow> distinct (map Word (placements c')))"
proof -
  from generate_post[OF assms, of words rs 0 t 0] obtain b t' k' c' where
    "generate words rs 0 (t, 0, c) = Some (b, t', k', c')" "wellFormed c'"
    "recorded c \<longrightarrow> distinct (map Word (placements c'))"
    by blast
  then show ?thesis by (auto simp: GeneratePuzzle_def)
qed

subsection \<open>The example states\<close>

lemma fresh33_new: "NewCrossword 3 3 = Some fresh33"
  by (simp add: NewCrossword_def fresh33_def eval_nat_numeral)

lemma dog33_put: "putWord fresh33 ''DOG'' 0 0 Horizontal = Some dog33"
  by (simp add: putWord_def fresh33_def dog33_def store_def in_bounds_def putBlock_def
      isValidPosition_def)

lemma dog33_put_again: "putWord dog33 ''DOG'' 0 0 Horizontal = Some dog33"
  by (simp add: putWord_def dog33_def)

lemma dog33_remove: "removeWord dog33 ''DOG'' 0 0 Horizontal = Some dogErased"
  by (simp add: removeWord_def dog33_def dogErased_def store_def in_bounds_def removeBlock_def
      isValidPosition_def cell_def hasAdjacentWords_def blocked_def)

lemma dog33_accepts_dog: "canBePlaced dog33 ''DOG'' 0 0 Horizontal = 3"
  by code_simp

lemma fresh33_accepts_dog: "canBePlaced fresh33 ''DOG'' 0 0 Horizontal = 0"
  by code_simp

lemma letterWord_DOG: "letterWord ''DOG''"
  by (simp add: letterWord_def notLetter_def)

lemma lifo_fresh33_dog33: "lifo accepted fresh33 [(''DOG'', 0, 0, Horizontal)] dog33"
proof -
  have "accepted fresh33 (''DOG'', 0, 0, Horizontal)"
    by (simp add: letterWord_DOG fresh33_accepts_dog)
  from lifo_put[where G=accepted, OF lifo_start this dog33_put] show ?thesis .
qed

lemma dog33_best_GO: "findBestPosition dog33 ''GO'' 5 = Some \<lparr>X = 0, Y = 2, Dir = Vertical\<rparr>"
  by code_simp

lemma fresh33_best_DOG:
  "findBestPosition fresh33 ''DOG'' (firstChoice k) = Some \<lparr>X = 0, Y = 0, Dir = Horizontal\<rparr>"
  unfolding firstChoice_def by code_simp

lemma dog33_best_DOG:
  "findBestPosition dog33 ''DOG'' (firstChoice k) = Some \<lparr>X = 0, Y = 0, Dir = Horizontal\<rparr>"
  unfolding firstChoice_def by code_simp

lemma fresh33_no_ELEPHANT: "canBePlaced fresh33 ''ELEPHANT'' x y d < 0"
  by (rule too_long_rejected) (simp_all add: fresh33_def)

lemma fresh33_best_ELEPHANT: "findBestPosition fresh33 ''ELEPHANT'' r = None"
  unfolding findBestPosition_None by (simp add: score_def fresh33_no_ELEPHANT)

lemma generate_ELEPHANT:
  "generate [''ELEPHANT''] rs 0 (Suc t, k, fresh33) = Some (True, t, k, fresh33)"
proof -
  have "generate [''ELEPHANT''] rs 0 (Suc t, k, fresh33) =
        generate [''ELEPHANT''] rs (Suc 0) (Suc t - 1, k, fresh33)"
    by (rule generate_skip) (simp_all add: fresh33_best_ELEPHANT)
  then show ?thesis by (simp add: generate_done)
qed

lemma generate_DOG_CAT_expired:
  "generate [''DOG'', ''CAT''] firstChoice 0 (1, 0, fresh33) = Some (False, 0, 1, dogErased)"
proof -
  have g1: "generate [''DOG'', ''CAT''] firstChoice (Suc 0) (1 - 1, Suc 0, dog33) =
            Some (False, 0, 1, dog33)"
    by (simp add: generate_expired)
  have "findBestPosition fresh33 ([''DOG'', ''CAT''] ! 0) (firstChoice 0) =
          Some \<lparr>X = 0, Y = 0, Dir = Horizontal\<rparr>"
    by (simp add: fresh33_best_DOG)
  from generate_commit[where rs=firstChoice and k=0 and words="[''DOG'', ''CAT'']" and pos=0
      and t=1 and c=fresh33, OF _ _ this _ g1]
  show ?thesis by (simp add: dog33_put dog33_remove generate_expired)
qed

lemma generate_DOG_DOG:
  "generate [''DOG'', ''DOG''] firstChoice 0 (5, 0, fresh33) = Some (True, 3, 2, dog33)"
proof -
  have g2: "generate [''DOG'', ''DOG''] firstChoice (Suc (Suc 0)) (4 - 1, Suc (Suc 0), dog33) =
            Some (True, 3, 2, dog33)"
    by (simp add: generate_done)
  have f1: "findBestPosition dog33 ([''DOG'', ''DOG''] ! Suc 0) (firstChoice (Suc 0)) =
          Some \<lparr>X = 0, Y = 0, Dir = Horizontal\<rparr>"
    by (simp add: dog33_best_DOG)
  from generate_commit[where rs=firstChoice and k="Suc 0" and words="[''DOG'', ''DOG'']"
      and pos="Suc 0" and t=4 and c=dog33, OF _ _ f1 _ g2]
  have g1: "generate [''DOG'', ''DOG''] firstChoice (Suc 0) (5 - 1, Suc 0, dog33) =
            Some (True, 3, 2, dog33)"
    by (simp add: dog33_put_again)
  have f0: "findBestPosition fresh33 ([''DOG'', ''DOG''] ! 0) (firstChoice 0) =
          Some \<lparr>X = 0, Y = 0, Dir = Horizontal\<rparr>"
    by (simp add: fresh33_best_DOG)
  from generate_commit[where rs=firstChoice and k=0 and words="[''DOG'', ''DOG'']" and pos=0
      and t=5 and c=fresh33, OF _ _ f0 _ g1]
  show ?thesis by (simp add: dog33_put)
qed

lemma fresh42_new: "NewCrossword 4 2 = Some fresh42"
  by (simp add: NewCrossword_def fresh42_def eval_nat_numeral)

lemma xy42_put: "putWord fresh42 ''XY'' 0 3 Vertical = Some xy42"
  by (simp add: putWord_def fresh42_def xy42_def store_def in_bounds_def putBlock_def
      isValidPosition_def)

lemma xyab42_put: "putWord xy42 ''AB'' 0 0 Horizontal = Some xyab42"
  by (simp add: putWord_def xy42_def xyab42_def store_def in_bounds_def putBlock_def
      isValidPosition_def)

lemma xyab42_remove: "removeWord xyab42 ''AB'' 0 0 Horizontal = Some xyLeft42"
  by (simp add: removeWord_def xyab42_def xyLeft42_def store_def in_bounds_def removeBlock_def
      isValidPosition_def cell_def hasAdjacentWords_def blocked_def fun_upd_twist)

lemma fresh42_accepts_XY: "canBePlaced fresh42 ''XY'' 0 3 Vertical = 0"
  by code_simp

lemma xy42_accepts_AB: "canBePlaced xy42 ''AB'' 0 0 Horizontal = 0"
  by code_simp

lemma effective_fresh42_XY: "effective fresh42 (''XY'', 0, 3, Vertical)"
proof -
  have a: "0 \<le> canBePlaced fresh42 ''XY'' 0 3 Vertical" by (simp add: fresh42_accepts_XY)
  have u: "usedWords fresh42 ''XY'' = None" by (simp add: fresh42_def)
  have f: "spanFree fresh42 ''XY'' 0 3 Vertical"
    by (simp add: spanFree_def own_def spanCell_def cell_def fresh42_def less_Suc_eq
        numeral_2_eq_2)
  show ?thesis using a u f by (simp add: letterWord_def notLetter_def)
qed

lemma effective_xy42_AB: "effective xy42 (''AB'', 0, 0, Horizontal)"
proof -
  have a: "0 \<le> canBePlaced xy42 ''AB'' 0 0 Horizontal" by (simp add: xy42_accepts_AB)
  have u: "usedWords xy42 ''AB'' = None" by (simp add: xy42_def)
  have f: "spanFree xy42 ''AB'' 0 0 Horizontal"
    by (simp add: spanFree_def own_def spanCell_def cell_def xy42_def less_Suc_eq
        numeral_2_eq_2)
  show ?thesis using a u f by (simp add: letterWord_def notLetter_def)
qed

lemma tidy_xy42: "tidy xy42"
proof -
  have "lifo effective fresh42 [(''XY'', 0, 3, Vertical)] xy42"
    by (rule lifo_put[where G=effective, OF lifo_start effective_fresh42_XY xy42_put])
  from lifo_tidy[OF NewCrossword_tidy[OF fresh42_new] this] show ?thesis .
qed

lemma lifo_xy42_xyLeft42: "lifo effective xy42 [] xyLeft42"
proof -
  have "lifo effective xy42 [(''AB'', 0, 0, Horizontal)] xyab42"
    by (rule lifo_put[where G=effective, OF lifo_start effective_xy42_AB xyab42_put])
  from lifo_remove[OF this xyab42_remove] show ?thesis .
qed

lemma effective_fresh33_DOG: "effective fresh33 (''DOG'', 0, 0, Horizontal)"
proof -
  have a: "0 \<le> canBePlaced fresh33 ''DOG'' 0 0 Horizontal" by (simp add: fresh33_accepts_dog)
  have u: "usedWords fresh33 ''DOG'' = None" by (simp add: fresh33_def)
  have f: "spanFree fresh33 ''DOG'' 0 0 Horizontal"
    by (simp add: spanFree_def own_def spanCell_def cell_def fresh33_def less_Suc_eq
        numeral_3_eq_3)
  show ?thesis using a u f by (simp add: letterWord_DOG)
qed

lemma tidy_dog33: "tidy dog33"
proof -
  have "lifo effective fresh33 [(''DOG'', 0, 0, Horizontal)] dog33"
    by (rule lifo_put[where G=effective, OF lifo_start effective_fresh33_DOG dog33_put])
  from lifo_tidy[OF NewCrossword_tidy[OF fresh33_new] this] show ?thesis .
qed

lemma dog33_accepts_GO: "canBePlaced dog33 ''GO'' 0 2 Vertical = 1"
  by code_simp

lemma dog33_matching_GO: "matchingCells dog33 ''GO'' 0 2 Vertical = [0]"
  by code_simp

lemma dog33_free_GO: "spanFree dog33 ''GO'' 0 2 Vertical"
  by (simp add: spanFree_def own_def spanCell_def cell_def dog33_def less_Suc_eq numeral_2_eq_2)

lemma effective_fresh42_AB: "effective fresh42 (''AB'', 0, 0, Horizontal)"
proof -
  have a: "canBePlaced fresh42 ''AB'' 0 0 Horizontal = 0" by code_simp
  have u: "usedWords fresh42 ''AB'' = None" by (simp add: fresh42_def)
  have f: "spanFree fresh42 ''AB'' 0 0 Horizontal"
    by (simp add: spanFree_def own_def spanCell_def cell_def fresh42_def less_Suc_eq
        numeral_2_eq_2)
  show ?thesis using a u f by (simp add: letterWord_def notLetter_def)
qed

section \<open>The claims\<close>

text \<open>
  \<^bold>\<open>C6\<close> (as stated). On acceptance the count would be the number of span cells that
  already hold the word's character, each of them a crossing with a perpendicular word.
  The second half fails: with \<open>DOG\<close> across the first row, \<open>canBePlaced\<close> accepts
  \<open>DOG\<close> at the same place with count 3, and the counted cell \<open>(0, 0)\<close> holds the
  word's first character while the vertical map has no claim on it. And on the fresh
  grid, where no word is, \<open>A B\<close> is accepted with count 1: the blank in the word
  matches the blank of the empty cell.
\<close>

theorem canBePlaced_counts_cells_without_crossing:
  "NewCrossword 3 3 = Some fresh33 \<and>
   0 \<le> canBePlaced fresh33 ''DOG'' 0 0 Horizontal \<and>
   putWord fresh33 ''DOG'' 0 0 Horizontal = Some dog33 \<and>
   isValidPosition dog33 0 0 \<and>
   canBePlaced dog33 ''DOG'' 0 0 Horizontal = 3 \<and>
   cell (board dog33) 0 0 = ''DOG'' ! 0 \<and>
   cell (vWords dog33) 0 0 = 0 \<and>
   canBePlaced fresh33 ''A B'' 0 0 Horizontal = 1 \<and>
   vWords fresh33 = [[0, 0, 0], [0, 0, 0], [0, 0, 0]]"
proof -
  have "isValidPosition dog33 0 0" by (simp add: isValidPosition_def dog33_def)
  moreover have "cell (board dog33) 0 0 = ''DOG'' ! 0" "cell (vWords dog33) 0 0 = 0"
    by (simp_all add: cell_def dog33_def)
  moreover have "canBePlaced fresh33 ''A B'' 0 0 Horizontal = 1" by code_simp
  moreover have "vWords fresh33 = [[0, 0, 0], [0, 0, 0], [0, 0, 0]]" by (simp add: fresh33_def)
  ultimately show ?thesis
    using fresh33_new dog33_put dog33_accepts_dog fresh33_accepts_dog by simp
qed

text \<open>
  \<^bold>\<open>C6\<close> (amended). On a well-formed state, whenever \<open>canBePlaced\<close> accepts, every
  cell of the span lies in the grid and the count returned is the number of offsets of
  the word whose span cell already holds the word's character at that offset. When
  moreover the state is tidy, the word is made of letter characters and no cell of the
  span is claimed in the word's own orientation, every counted cell is a crossing: the
  occupancy map of the other orientation has a positive entry there.
\<close>

theorem canBePlaced_counts_crossings:
  assumes "wellFormed c" "0 \<le> canBePlaced c w x y d"
  shows "spanValid c d x y (length w) \<and>
    canBePlaced c w x y d = int (length (matchingCells c w x y d)) \<and>
    (tidy c \<and> letterWord w \<and> spanFree c w x y d \<longrightarrow>
       (\<forall>j \<in> set (matchingCells c w x y d).
          0 < cell (other d c) (fst (spanCell d x y (int j))) (snd (spanCell d x y (int j)))))"
  using canBePlaced_accepted(1,3)[OF assms(2)] counted_cells_cross[OF _ _ assms(2)] by blast

theorem canBePlaced_counts_crossings_witness:
  "wellFormed dog33 \<and> 0 \<le> canBePlaced dog33 ''GO'' 0 2 Vertical \<and>
   tidy dog33 \<and> letterWord ''GO'' \<and> spanFree dog33 ''GO'' 0 2 Vertical \<and>
   spanValid dog33 Vertical 0 2 (length ''GO'') \<and>
   matchingCells dog33 ''GO'' 0 2 Vertical = [0] \<and>
   canBePlaced dog33 ''GO'' 0 2 Vertical = 1 \<and>
   cell (board dog33) 0 2 = CHR ''G'' \<and>
   0 < cell (hWords dog33) 0 2"
proof -
  have wf: "wellFormed dog33" by (simp add: wellFormed_def shaped_def dog33_def)
  have h: "0 \<le> canBePlaced dog33 ''GO'' 0 2 Vertical" by (simp add: dog33_accepts_GO)
  have lw: "letterWord ''GO''" by (simp add: letterWord_def notLetter_def)
  have g: "cell (board dog33) 0 2 = CHR ''G''" by (simp add: cell_def dog33_def)
  from canBePlaced_counts_crossings[OF wf h] tidy_dog33 lw dog33_free_GO dog33_matching_GO
  have "spanValid dog33 Vertical 0 2 (length ''GO'')"
    and "0 < cell (other Vertical dog33) (fst (spanCell Vertical 0 2 (int 0)))
               (snd (spanCell Vertical 0 2 (int 0)))"
    by simp_all
  then show ?thesis
    using wf h tidy_dog33 lw dog33_free_GO dog33_matching_GO dog33_accepts_GO g
    by (simp add: other_def spanCell_def)
qed

text \<open>
  \<^bold>\<open>C9\<close>. On a well-formed state, whenever \<open>removeWord\<close> returns, the word is no
  longer in the used-word set and every entry of the orientation's occupancy map along
  the span is zero; with the span inside the grid it does return. \<open>putWord\<close> of a
  used word changes nothing, so the pair applied to \<open>DOG\<close> on the grid that already
  holds \<open>DOG\<close> erases the original placement.
\<close>

theorem removeWord_ignores_noop_put:
  assumes "wellFormed c"
  shows "(removeWord c w x y d = Some c' \<longrightarrow>
      usedWords c' w = None \<and>
      (\<forall>j < length w.
         cell (own d c') (fst (spanCell d x y (int j))) (snd (spanCell d x y (int j))) = 0)) \<and>
   (spanValid c d x y (length w) \<longrightarrow> removeWord c w x y d \<noteq> None) \<and>
   usedWords dog33 ''DOG'' = Some True \<and>
   0 \<le> canBePlaced dog33 ''DOG'' 0 0 Horizontal \<and>
   putWord dog33 ''DOG'' 0 0 Horizontal = Some dog33 \<and>
   removeWord dog33 ''DOG'' 0 0 Horizontal = Some dogErased \<and>
   usedWords dogErased ''DOG'' = None \<and>
   hWords dogErased = [[0, 0, 0], [0, 0, 0], [0, 0, 0]] \<and>
   board dogErased = [''   '', ''   '', ''   '']"
proof -
  have a: "removeWord c w x y d = Some c' \<longrightarrow>
      usedWords c' w = None \<and>
      (\<forall>j < length w.
         cell (own d c') (fst (spanCell d x y (int j))) (snd (spanCell d x y (int j))) = 0)"
    using removeWord_frame(2)[of c w x y d c'] removeWord_zeroes[of c w x y d c'] by simp
  have b: "spanValid c d x y (length w) \<longrightarrow> removeWord c w x y d \<noteq> None"
    using removeWord_total[OF assms, of d x y w] by auto
  have e: "usedWords dog33 ''DOG'' = Some True" "usedWords dogErased ''DOG'' = None"
    "hWords dogErased = [[0, 0, 0], [0, 0, 0], [0, 0, 0]]"
    "board dogErased = [''   '', ''   '', ''   '']"
    by (simp_all add: dog33_def dogErased_def)
  show ?thesis using a b e dog33_put_again dog33_remove dog33_accepts_dog by simp
qed

theorem removeWord_ignores_noop_put_witness:
  "removeWord dog33 ''DOG'' 0 0 Horizontal = Some dogErased \<and>
   wellFormed dog33 \<and> spanValid dog33 Horizontal 0 0 (length ''DOG'') \<and>
   usedWords dogErased ''DOG'' = None \<and>
   cell (own Horizontal dogErased) 0 0 = 0 \<and>
   cell (own Horizontal dogErased) 0 1 = 0 \<and>
   cell (own Horizontal dogErased) 0 2 = 0 \<and>
   removeWord dog33 ''DOG'' 0 0 Horizontal \<noteq> None"
proof -
  have wf: "wellFormed dog33" by (simp add: wellFormed_def shaped_def dog33_def)
  have sv: "spanValid dog33 Horizontal 0 0 (length ''DOG'')"
    by (auto simp: spanValid_H isValidPosition_def dog33_def)
  from removeWord_ignores_noop_put[OF wf, of "''DOG''" 0 0 Horizontal dogErased] dog33_remove
  have z: "\<forall>j < length ''DOG''.
      cell (own Horizontal dogErased) (fst (spanCell Horizontal 0 0 (int j)))
        (snd (spanCell Horizontal 0 0 (int j))) = 0"
    and u: "usedWords dogErased ''DOG'' = None"
    by simp_all
  from z[rule_format, of 0] z[rule_format, of 1] z[rule_format, of 2]
  have "cell (own Horizontal dogErased) 0 0 = 0" "cell (own Horizontal dogErased) 0 1 = 0"
    "cell (own Horizontal dogErased) 0 2 = 0"
    by (simp_all add: spanCell_def)
  then show ?thesis using wf sv u dog33_remove by simp
qed

text \<open>
  \<^bold>\<open>C2\<close>. \<open>removeWord\<close> never touches the placement list: after \<open>DOG\<close> is put on the
  fresh grid and removed again, the list still holds the record that \<open>putWord\<close>
  appended and differs from the list before the commit.
\<close>

theorem removeWord_keeps_placement_record:
  "NewCrossword 3 3 = Some fresh33 \<and>
   0 \<le> canBePlaced fresh33 ''DOG'' 0 0 Horizontal \<and>
   putWord fresh33 ''DOG'' 0 0 Horizontal = Some dog33 \<and>
   removeWord dog33 ''DOG'' 0 0 Horizontal = Some dogErased \<and>
   placements fresh33 = [] \<and>
   placements dogErased =
     [\<lparr>X = 0, Y = 0, Dir = Horizontal, Length = 3, Word = ''DOG''\<rparr>] \<and>
   placements dogErased \<noteq> placements fresh33"
  using fresh33_new dog33_put dog33_remove fresh33_accepts_dog
  by (simp add: fresh33_def dogErased_def)

text \<open>
  \<^bold>\<open>C4\<close>. On a well-formed state \<open>findBestPosition\<close> returns none exactly when
  \<open>canBePlaced\<close> rejects every start cell of the grid in both orientations. Otherwise the candidate it returns lies
  in the grid, is accepted, and no candidate of the grid scores more: it is one of the
  accepted candidates of maximal score, whatever the random draw \<open>r\<close>.
\<close>

theorem findBestPosition_maximal:
  assumes "wellFormed c"
  shows "(findBestPosition c w r = None \<longleftrightarrow>
      (\<forall>x y d. isValidPosition c x y \<longrightarrow> canBePlaced c w x y d < 0)) \<and>
   (findBestPosition c w r = Some p \<longrightarrow>
      isValidPosition c (X p) (Y p) \<and>
      0 \<le> canBePlaced c w (X p) (Y p) (Dir p) \<and>
      (\<forall>x y d. isValidPosition c x y \<longrightarrow>
         canBePlaced c w x y d \<le> canBePlaced c w (X p) (Y p) (Dir p)))"
proof -
  have cand: "\<lparr>X = x, Y = y, Dir = d\<rparr> \<in> set (candidates c)" if "isValidPosition c x y" for x y d
    using that by (simp add: candidates_iff)
  have a: "findBestPosition c w r = None \<longleftrightarrow>
      (\<forall>x y d. isValidPosition c x y \<longrightarrow> canBePlaced c w x y d < 0)"
  proof
    assume "findBestPosition c w r = None"
    then have n: "\<forall>q \<in> set (candidates c). score c w q < 0" by (simp add: findBestPosition_None)
    show "\<forall>x y d. isValidPosition c x y \<longrightarrow> canBePlaced c w x y d < 0"
    proof (intro allI impI)
      fix x y d assume "isValidPosition c x y"
      from n[rule_format, OF cand[OF this, of d]] show "canBePlaced c w x y d < 0"
        by (simp add: score_def)
    qed
  next
    assume r: "\<forall>x y d. isValidPosition c x y \<longrightarrow> canBePlaced c w x y d < 0"
    have "\<forall>q \<in> set (candidates c). score c w q < 0"
      using r by (simp add: candidates_iff score_def)
    then show "findBestPosition c w r = None" by (simp add: findBestPosition_None)
  qed
  have b: "isValidPosition c (X p) (Y p) \<and>
      0 \<le> canBePlaced c w (X p) (Y p) (Dir p) \<and>
      (\<forall>x y d. isValidPosition c x y \<longrightarrow>
         canBePlaced c w x y d \<le> canBePlaced c w (X p) (Y p) (Dir p))"
    if s: "findBestPosition c w r = Some p"
  proof (intro conjI allI impI)
    from findBestPosition_Some(1)[OF s] show "isValidPosition c (X p) (Y p)"
      by (simp add: candidates_iff)
    from findBestPosition_Some(2)[OF s] show "0 \<le> canBePlaced c w (X p) (Y p) (Dir p)"
      by (simp add: score_def)
    fix x y d assume "isValidPosition c x y"
    from findBestPosition_Some(3)[OF s, rule_format, OF cand[OF this, of d]]
    show "canBePlaced c w x y d \<le> canBePlaced c w (X p) (Y p) (Dir p)"
      by (simp add: score_def)
  qed
  from a b show ?thesis by blast
qed

theorem findBestPosition_maximal_witness:
  "wellFormed dog33 \<and> wellFormed fresh33 \<and>
   findBestPosition dog33 ''GO'' 5 = Some \<lparr>X = 0, Y = 2, Dir = Vertical\<rparr> \<and>
   isValidPosition dog33 0 2 \<and>
   0 \<le> canBePlaced dog33 ''GO'' 0 2 Vertical \<and>
   isValidPosition dog33 1 0 \<and>
   canBePlaced dog33 ''GO'' 1 0 Horizontal \<le> canBePlaced dog33 ''GO'' 0 2 Vertical \<and>
   findBestPosition fresh33 ''ELEPHANT'' 5 = None \<and>
   isValidPosition fresh33 1 1 \<and>
   canBePlaced fresh33 ''ELEPHANT'' 1 1 Horizontal < 0"
proof -
  have v: "isValidPosition dog33 1 0" "isValidPosition fresh33 1 1"
    by (simp_all add: isValidPosition_def dog33_def fresh33_def)
  have wf: "wellFormed dog33" "wellFormed fresh33"
    by (simp_all add: wellFormed_def shaped_def dog33_def fresh33_def)
  from findBestPosition_maximal[OF wf(1), of "''GO''" 5 "\<lparr>X = 0, Y = 2, Dir = Vertical\<rparr>"]
    findBestPosition_maximal[OF wf(2), of "''ELEPHANT''" 5]
    dog33_best_GO fresh33_best_ELEPHANT v wf
  show ?thesis by simp
qed

text \<open>
  \<^bold>\<open>C5\<close>. \<open>putWord\<close> of a word that is marked used returns the state it was given,
  every field of it. And \<open>GeneratePuzzle\<close> on a fresh grid returns, for every word
  list, random source and time budget, with a placement list in which no word occurs
  twice.
\<close>

theorem putWord_used_noop:
  "(usedWords c w = Some True \<longrightarrow> putWord c w x y d = Some c) \<and>
   (NewCrossword wd ht = Some c0 \<longrightarrow>
      (\<exists>b c'. GeneratePuzzle c0 words rs t = Some (b, c') \<and>
         length (filter (\<lambda>p. Word p = w) (placements c')) \<le> 1))"
proof -
  have "\<exists>b c'. GeneratePuzzle c0 words rs t = Some (b, c') \<and>
         length (filter (\<lambda>p. Word p = w) (placements c')) \<le> 1"
    if n: "NewCrossword wd ht = Some c0"
  proof -
    from GeneratePuzzle_post[OF NewCrossword_wellFormed(1)[OF n], of words rs t]
      NewCrossword_wellFormed(2)[OF n]
    obtain b c' where g: "GeneratePuzzle c0 words rs t = Some (b, c')"
      and d: "distinct (map Word (placements c'))" by blast
    from distinct_filter_le1[OF d] g show ?thesis by blast
  qed
  then show ?thesis by (simp add: putWord_used)
qed

theorem putWord_used_noop_witness:
  "usedWords dog33 ''DOG'' = Some True \<and>
   putWord dog33 ''DOG'' 1 1 Vertical = Some dog33 \<and>
   NewCrossword 3 3 = Some fresh33 \<and>
   GeneratePuzzle fresh33 [''DOG'', ''DOG''] firstChoice 5 = Some (True, dog33) \<and>
   (\<exists>b c'. GeneratePuzzle fresh33 [''DOG'', ''DOG''] firstChoice 5 = Some (b, c') \<and>
      length (filter (\<lambda>p. Word p = ''DOG'') (placements c')) \<le> 1)"
proof -
  have u: "usedWords dog33 ''DOG'' = Some True" by (simp add: dog33_def)
  have g: "GeneratePuzzle fresh33 [''DOG'', ''DOG''] firstChoice 5 = Some (True, dog33)"
    by (simp add: GeneratePuzzle_def generate_DOG_DOG)
  from putWord_used_noop[of dog33 "''DOG''" 1 1 Vertical 3 3 fresh33
      "[''DOG'', ''DOG'']" firstChoice 5] u fresh33_new g
  show ?thesis by simp
qed

text \<open>
  \<^bold>\<open>C7\<close>. On the fresh 3-by-3 grid \<open>canBePlaced\<close> rejects \<open>ELEPHANT\<close> at every
  start and in both orientations, so \<open>findBestPosition\<close> returns none whatever the
  draw; and \<open>GeneratePuzzle\<close> on the list holding only that word, with a deadline that
  has not passed at the first check, returns success and the grid as it was, with an
  empty placement list.
\<close>

theorem elephant_is_skipped:
  "NewCrossword 3 3 = Some fresh33 \<and>
   canBePlaced fresh33 ''ELEPHANT'' x y d < 0 \<and>
   findBestPosition fresh33 ''ELEPHANT'' r = None \<and>
   GeneratePuzzle fresh33 [''ELEPHANT''] rs (Suc t) = Some (True, fresh33) \<and>
   placements fresh33 = []"
  using fresh33_new fresh33_no_ELEPHANT fresh33_best_ELEPHANT generate_ELEPHANT
  by (simp add: GeneratePuzzle_def fresh33_def)

theorem elephant_is_skipped_witness:
  "canBePlaced fresh33 ''ELEPHANT'' 0 0 Horizontal < 0 \<and>
   canBePlaced fresh33 ''ELEPHANT'' 0 0 Vertical < 0 \<and>
   findBestPosition fresh33 ''ELEPHANT'' 7 = None \<and>
   GeneratePuzzle fresh33 [''ELEPHANT''] firstChoice (Suc 0) = Some (True, fresh33)"
  using elephant_is_skipped[of 0 0 Horizontal 7 firstChoice 0]
    elephant_is_skipped[of 0 0 Vertical 7 firstChoice 0]
  by simp

text \<open>
  \<^bold>\<open>C3\<close> (as stated). After the deadline check has tripped no frame would touch the
  state, and the board would stay as it was at expiry. With the words \<open>DOG\<close>, \<open>CAT\<close>
  and a budget of one passing check, the first frame commits \<open>DOG\<close>; the check of the
  second frame trips on the board that holds \<open>DOG\<close> and the frame returns failure
  without a change; the first frame then calls \<open>removeWord\<close>, and \<open>GeneratePuzzle\<close>
  returns failure with a blank board.
\<close>

theorem unwinding_removes_committed_word:
  "NewCrossword 3 3 = Some fresh33 \<and>
   findBestPosition fresh33 ''DOG'' (firstChoice 0) = Some \<lparr>X = 0, Y = 0, Dir = Horizontal\<rparr> \<and>
   putWord fresh33 ''DOG'' 0 0 Horizontal = Some dog33 \<and>
   generate [''DOG'', ''CAT''] firstChoice 1 (0, 1, dog33) = Some (False, 0, 1, dog33) \<and>
   GeneratePuzzle fresh33 [''DOG'', ''CAT''] firstChoice 1 = Some (False, dogErased) \<and>
   board dog33 = [''DOG'', ''   '', ''   ''] \<and>
   board dogErased = [''   '', ''   '', ''   ''] \<and>
   hWords dog33 = [[1, 1, 1], [0, 0, 0], [0, 0, 0]] \<and>
   hWords dogErased = [[0, 0, 0], [0, 0, 0], [0, 0, 0]] \<and>
   usedWords dog33 ''DOG'' = Some True \<and>
   usedWords dogErased ''DOG'' = None"
proof -
  have "generate [''DOG'', ''CAT''] firstChoice 1 (0, 1, dog33) = Some (False, 0, 1, dog33)"
    by (simp add: generate_expired)
  moreover have "GeneratePuzzle fresh33 [''DOG'', ''CAT''] firstChoice 1 = Some (False, dogErased)"
    unfolding GeneratePuzzle_def generate_DOG_CAT_expired by simp
  moreover have "board dog33 = [''DOG'', ''   '', ''   '']"
    "board dogErased = [''   '', ''   '', ''   '']"
    "hWords dog33 = [[1, 1, 1], [0, 0, 0], [0, 0, 0]]"
    "hWords dogErased = [[0, 0, 0], [0, 0, 0], [0, 0, 0]]"
    "usedWords dog33 ''DOG'' = Some True" "usedWords dogErased ''DOG'' = None"
    by (simp_all add: dog33_def dogErased_def)
  ultimately show ?thesis using fresh33_new fresh33_best_DOG dog33_put by simp
qed

text \<open>
  \<^bold>\<open>C3\<close> (amended). On a well-formed state, a frame whose deadline check trips
  returns failure and the state unchanged. A frame that sees the recursive call fail
  returns failure as well, with the clock expired: when it had committed its word it
  first calls \<open>removeWord\<close> on the state the call returned, which does return and
  leaves the placement list as it is; when it had no position for its word it passes
  the returned state on.
\<close>

theorem generate_unwinds:
  assumes "wellFormed c" "pos < length words"
  shows "generate words rs pos (0, k, c) = Some (False, 0, k, c) \<and>
    (0 < t \<longrightarrow> findBestPosition c (words ! pos) (rs k) = Some p \<longrightarrow>
       putWord c (words ! pos) (X p) (Y p) (Dir p) = Some c1 \<longrightarrow>
       generate words rs (Suc pos) (t - 1, Suc k, c1) = Some (False, t2, k2, c2) \<longrightarrow>
       (\<exists>c3. removeWord c2 (words ! pos) (X p) (Y p) (Dir p) = Some c3 \<and>
             generate words rs pos (t, k, c) = Some (False, 0, k2, c3) \<and>
             placements c3 = placements c2)) \<and>
    (0 < t \<longrightarrow> findBestPosition c (words ! pos) (rs k) = None \<longrightarrow>
       generate words rs (Suc pos) (t - 1, k, c) = Some (False, t2, k2, c2) \<longrightarrow>
       generate words rs pos (t, k, c) = Some (False, 0, k2, c2))"
proof (intro conjI impI)
  show "generate words rs pos (0, k, c) = Some (False, 0, k, c)"
    by (rule generate_expired[OF assms(2)])
next
  assume t: "0 < t" and f: "findBestPosition c (words ! pos) (rs k) = Some p"
    and put: "putWord c (words ! pos) (X p) (Y p) (Dir p) = Some c1"
    and g: "generate words rs (Suc pos) (t - 1, Suc k, c1) = Some (False, t2, k2, c2)"
  let ?w = "words ! pos"
  from findBestPosition_Some(2)[OF f]
  have acc: "0 \<le> canBePlaced c ?w (X p) (Y p) (Dir p)" by (simp add: score_def)
  from putWord_wf[OF assms(1) acc put] have wf1: "wellFormed c1"
    and d1: "width c1 = width c" "height c1 = height c" by simp_all
  from generate_post[OF wf1, of words rs "Suc pos" "t - 1" "Suc k"] g
  have wf2: "wellFormed c2" and d2: "width c2 = width c1" "height c2 = height c1"
    and t2: "t2 = 0" and lt2: "Suc pos < length words" by auto
  have sv: "spanValid c2 (Dir p) (X p) (Y p) (length ?w)"
    using canBePlaced_accepted(1)[OF acc] d1 d2 by (simp add: spanValid_def isValidPosition_def)
  from removeWord_total[OF wf2 sv] obtain c3 where
    rem: "removeWord c2 ?w (X p) (Y p) (Dir p) = Some c3" by blast
  have "generate words rs pos (t, k, c) = Some (False, 0, k2, c3)"
    using generate_commit[where rs=rs and k=k, OF assms(2) t f put g] rem t2
      generate_expired[OF lt2] by simp
  then show "\<exists>c3. removeWord c2 ?w (X p) (Y p) (Dir p) = Some c3 \<and>
             generate words rs pos (t, k, c) = Some (False, 0, k2, c3) \<and>
             placements c3 = placements c2"
    using rem removeWord_frame(1)[OF rem] by simp
next
  assume t: "0 < t" and f: "findBestPosition c (words ! pos) (rs k) = None"
    and g: "generate words rs (Suc pos) (t - 1, k, c) = Some (False, t2, k2, c2)"
  from generate_post[OF assms(1), of words rs "Suc pos" "t - 1" k] g
  have "t2 = 0" by auto
  then show "generate words rs pos (t, k, c) = Some (False, 0, k2, c2)"
    using generate_skip[where rs=rs and k=k, OF assms(2) t f] g by simp
qed

theorem generate_unwinds_witness:
  "wellFormed fresh33 \<and> 0 < length [''DOG'', ''CAT''] \<and>
   generate [''DOG'', ''CAT''] firstChoice 0 (0, 0, fresh33) = Some (False, 0, 0, fresh33) \<and>
   findBestPosition fresh33 ([''DOG'', ''CAT''] ! 0) (firstChoice 0) =
     Some \<lparr>X = 0, Y = 0, Dir = Horizontal\<rparr> \<and>
   putWord fresh33 ([''DOG'', ''CAT''] ! 0) 0 0 Horizontal = Some dog33 \<and>
   generate [''DOG'', ''CAT''] firstChoice (Suc 0) (1 - 1, Suc 0, dog33) =
     Some (False, 0, 1, dog33) \<and>
   (\<exists>c3. removeWord dog33 ([''DOG'', ''CAT''] ! 0) 0 0 Horizontal = Some c3 \<and>
         generate [''DOG'', ''CAT''] firstChoice 0 (1, 0, fresh33) = Some (False, 0, 1, c3) \<and>
         placements c3 = placements dog33)"
proof -
  have wf: "wellFormed fresh33" by (simp add: wellFormed_def shaped_def fresh33_def)
  have len: "0 < length [''DOG'', ''CAT'']" by simp
  have f: "findBestPosition fresh33 ([''DOG'', ''CAT''] ! 0) (firstChoice 0) =
     Some \<lparr>X = 0, Y = 0, Dir = Horizontal\<rparr>" by (simp add: fresh33_best_DOG)
  have p: "putWord fresh33 ([''DOG'', ''CAT''] ! 0) 0 0 Horizontal = Some dog33"
    by (simp add: dog33_put)
  have g: "generate [''DOG'', ''CAT''] firstChoice (Suc 0) (1 - 1, Suc 0, dog33) =
     Some (False, 0, 1, dog33)" by (simp add: generate_expired)
  from generate_unwinds[OF wf len, of firstChoice 0 1 "\<lparr>X = 0, Y = 0, Dir = Horizontal\<rparr>"
      dog33 0 1 dog33] f p g
  show ?thesis using wf by simp
qed




text \<open>
  \<^bold>\<open>C10\<close> (as stated). The claim asks for matching \<open>removeWord\<close> calls, in any
  order. Put \<open>AB\<close> across at \<open>(1, 1)\<close> on a fresh 3-by-3 grid, put it there again
  (accepted, and a no-op), remove it, put \<open>C\<close> down at \<open>(1, 0)\<close>, and remove \<open>AB\<close>
  a second time, for the first \<open>putWord\<close>: the second removal finds no letter next to
  its boundary cell \<open>(1, 0)\<close> and blanks it, although the vertical map still claims
  that cell for \<open>C\<close>.
\<close>

theorem second_removal_blanks_claimed_cell:
  "map_option board (applySteps (NewCrossword 3 3)
      [Commit ''AB'' 1 1 Horizontal, Commit ''AB'' 1 1 Horizontal, Undo ''AB'' 1 1 Horizontal,
       Commit ''C'' 1 0 Vertical, Undo ''AB'' 1 1 Horizontal]) = Some [''*  '', ''   '', ''*  ''] \<and>
   map_option vWords (applySteps (NewCrossword 3 3)
      [Commit ''AB'' 1 1 Horizontal, Commit ''AB'' 1 1 Horizontal, Undo ''AB'' 1 1 Horizontal,
       Commit ''C'' 1 0 Vertical, Undo ''AB'' 1 1 Horizontal]) =
     Some [[0, 0, 0], [1, 0, 0], [0, 0, 0]]"
  by code_simp

text \<open>
  \<^bold>\<open>C10\<close> (amended). In every state reached from a fresh grid by guarded \<open>putWord\<close>
  calls of words made of letter characters and \<open>removeWord\<close> calls in LIFO order, a
  cell of the grid with a positive entry in either occupancy map holds neither a blank
  nor the block marker.
\<close>

theorem lifo_claimed_cells_hold_letters:
  assumes "NewCrossword wd ht = Some c0" "lifo accepted c0 st c"
    "isValidPosition c x y" "0 < cell (hWords c) x y \<or> 0 < cell (vWords c) x y"
  shows "cell (board c) x y \<noteq> CHR '' '' \<and> cell (board c) x y \<noteq> CHR ''*''"
proof -
  from NewCrossword_wellFormed[OF assms(1)] have "sound c0" by (simp add: sound_def)
  from lifo_sound[OF this assms(2)] have "claimsHoldLetters c" by (simp add: sound_def)
  with assms(3,4) have "\<not> notLetter (cell (board c) x y)"
    unfolding claimsHoldLetters_def by force
  then show ?thesis by (simp add: notLetter_def)
qed

theorem lifo_claimed_cells_hold_letters_witness:
  "NewCrossword 3 3 = Some fresh33 \<and>
   lifo accepted fresh33 [(''DOG'', 0, 0, Horizontal)] dog33 \<and>
   isValidPosition dog33 0 1 \<and>
   (0 < cell (hWords dog33) 0 1 \<or> 0 < cell (vWords dog33) 0 1) \<and>
   cell (board dog33) 0 1 \<noteq> CHR '' '' \<and> cell (board dog33) 0 1 \<noteq> CHR ''*''"
proof -
  have v: "isValidPosition dog33 0 1" by (simp add: isValidPosition_def dog33_def)
  have h: "0 < cell (hWords dog33) 0 1 \<or> 0 < cell (vWords dog33) 0 1"
    by (simp add: cell_def dog33_def)
  from lifo_claimed_cells_hold_letters[OF fresh33_new lifo_fresh33_dog33 v h]
  show ?thesis using fresh33_new lifo_fresh33_dog33 v h by simp
qed

text \<open>
  \<^bold>\<open>C1\<close> (as stated). Two accepted commit/undo pairs that do not give the state
  back. With \<open>XY\<close> down the last column of the 4-by-2 grid, \<open>AB\<close> is accepted across
  at the origin; its removal keeps the block marker at \<open>(0, 2)\<close>, a cell that was
  blank before, because the neighbouring cell holds the \<open>X\<close>; and the marker stays
  when \<open>XY\<close> is removed as well, so the whole LIFO sequence on the fresh grid ends
  with a board that is not blank. With \<open>DOG\<close> on the 3-by-3 grid, \<open>DOG\<close> is accepted
  at the same place, \<open>putWord\<close> does nothing, and \<open>removeWord\<close> erases the word from
  the board, the horizontal map and the used-word set.
\<close>

theorem undo_leaves_marker_or_erases_duplicate:
  "NewCrossword 4 2 = Some fresh42 \<and>
   applySteps (Some fresh42) [Commit ''XY'' 0 3 Vertical] = Some xy42 \<and>
   applySteps (Some xy42) [Commit ''AB'' 0 0 Horizontal, Undo ''AB'' 0 0 Horizontal]
     = Some xyLeft42 \<and>
   board xy42 = [''   X'', ''   Y''] \<and>
   board xyLeft42 = [''  *X'', ''   Y''] \<and>
   map_option board (applySteps (Some fresh42)
     [Commit ''XY'' 0 3 Vertical, Commit ''AB'' 0 0 Horizontal,
      Undo ''AB'' 0 0 Horizontal, Undo ''XY'' 0 3 Vertical]) = Some [''  * '', ''    ''] \<and>
   board fresh42 = [''    '', ''    ''] \<and>
   applySteps (Some dog33) [Commit ''DOG'' 0 0 Horizontal, Undo ''DOG'' 0 0 Horizontal]
     = Some dogErased \<and>
   usedWords dog33 ''DOG'' = Some True \<and> usedWords dogErased ''DOG'' = None \<and>
   hWords dog33 = [[1, 1, 1], [0, 0, 0], [0, 0, 0]] \<and>
   hWords dogErased = [[0, 0, 0], [0, 0, 0], [0, 0, 0]] \<and>
   board dog33 = [''DOG'', ''   '', ''   ''] \<and>
   board dogErased = [''   '', ''   '', ''   '']"
proof -
  have a: "applySteps (Some fresh42) [Commit ''XY'' 0 3 Vertical] = Some xy42"
    by (simp add: fresh42_accepts_XY xy42_put)
  have b: "applySteps (Some xy42) [Commit ''AB'' 0 0 Horizontal, Undo ''AB'' 0 0 Horizontal]
     = Some xyLeft42"
    by (simp add: xy42_accepts_AB xyab42_put xyab42_remove)
  have c: "map_option board (applySteps (Some fresh42)
     [Commit ''XY'' 0 3 Vertical, Commit ''AB'' 0 0 Horizontal,
      Undo ''AB'' 0 0 Horizontal, Undo ''XY'' 0 3 Vertical]) = Some [''  * '', ''    '']"
    by code_simp
  have d: "applySteps (Some dog33) [Commit ''DOG'' 0 0 Horizontal, Undo ''DOG'' 0 0 Horizontal]
     = Some dogErased"
    by (simp add: dog33_accepts_dog dog33_put_again dog33_remove)
  have e: "board xy42 = [''   X'', ''   Y'']" "board xyLeft42 = [''  *X'', ''   Y'']"
    "board fresh42 = [''    '', ''    '']"
    "usedWords dog33 ''DOG'' = Some True" "usedWords dogErased ''DOG'' = None"
    "hWords dog33 = [[1, 1, 1], [0, 0, 0], [0, 0, 0]]"
    "hWords dogErased = [[0, 0, 0], [0, 0, 0], [0, 0, 0]]"
    "board dog33 = [''DOG'', ''   '', ''   '']"
    "board dogErased = [''   '', ''   '', ''   '']"
    by (simp_all add: xy42_def xyLeft42_def fresh42_def dog33_def dogErased_def)
  show ?thesis using fresh42_new a b c d e by simp
qed

text \<open>
  \<^bold>\<open>C1\<close> (amended). Let the state before be tidy: well-formed, a letter in every
  claimed cell, a blank or a block marker in every other cell, no negative entry or
  counter; a fresh grid is, and every state of a sequence as follows is again. Call a
  \<open>putWord\<close> effective when its word is made of letter characters, \<open>canBePlaced\<close>
  accepts the position, the word is not in the used-word set and its span is unclaimed
  in its own orientation.

  \<^item> After a sequence of effective \<open>putWord\<close> calls and their \<open>removeWord\<close> calls in
    LIFO order, both occupancy maps and the used-word set are what they were; and so is
    the board, except that a cell that held a blank may hold a block marker, and a cell
    that held a block marker may hold a blank when none of its four neighbours holds a
    letter.
  \<^item> One effective \<open>putWord\<close> and its \<open>removeWord\<close> both return, and give back both
    maps, the used-word set and every cell of the board but the two next to the ends of
    the span: such a cell then holds the block marker when one of its four neighbours
    holds a letter, and a blank when none does, whatever it held before.
  \<^item> On a fresh grid the pair gives back the blank board.
\<close>

theorem lifo_effective_restores:
  assumes "tidy c0"
  shows "(lifo effective c0 [] c \<longrightarrow>
       hWords c = hWords c0 \<and> vWords c = vWords c0 \<and> usedWords c = usedWords c0 \<and>
       (\<forall>a b. isValidPosition c0 a b \<longrightarrow>
          cell (board c) a b = cell (board c0) a b \<or>
          (cell (board c0) a b = CHR '' '' \<and> cell (board c) a b = CHR ''*'') \<or>
          (cell (board c0) a b = CHR ''*'' \<and> cell (board c) a b = CHR '' '' \<and>
           \<not> letterBeside c0 a b))) \<and>
    (effective c0 (w, x, y, d) \<longrightarrow>
       (\<exists>c1 c'. putWord c0 w x y d = Some c1 \<and> removeWord c1 w x y d = Some c' \<and>
          hWords c' = hWords c0 \<and> vWords c' = vWords c0 \<and> usedWords c' = usedWords c0 \<and>
          (\<forall>a b. isValidPosition c0 a b \<longrightarrow>
             cell (board c') a b =
               (if (a, b) = beforeCell d x y \<or> (a, b) = afterCell d x y (length w)
                then (if letterBeside c0 a b then CHR ''*'' else CHR '' '')
                else cell (board c0) a b)))) \<and>
    (effective c0 (w, x, y, d) \<and> NewCrossword wd ht = Some c0 \<longrightarrow>
       (\<exists>c1 c'. putWord c0 w x y d = Some c1 \<and> removeWord c1 w x y d = Some c' \<and>
          board c' = board c0 \<and> hWords c' = hWords c0 \<and> vWords c' = vWords c0 \<and>
          usedWords c' = usedWords c0))"
proof -
  have a: "hWords c = hWords c0 \<and> vWords c = vWords c0 \<and> usedWords c = usedWords c0 \<and>
       (\<forall>a b. isValidPosition c0 a b \<longrightarrow>
          cell (board c) a b = cell (board c0) a b \<or>
          (cell (board c0) a b = CHR '' '' \<and> cell (board c) a b = CHR ''*'') \<or>
          (cell (board c0) a b = CHR ''*'' \<and> cell (board c) a b = CHR '' '' \<and>
           \<not> hasAdjacentWords c0 a b))"
    if "lifo effective c0 [] c"
  proof -
    from lifo_bracketed[OF assms that] have st: "settled c0 c" by simp
    then have r: "restored c0 c" by (simp add: settled_def)
    have "cell (board c) a b = cell (board c0) a b \<or>
          (cell (board c0) a b = CHR '' '' \<and> cell (board c) a b = CHR ''*'') \<or>
          (cell (board c0) a b = CHR ''*'' \<and> cell (board c) a b = CHR '' '' \<and>
           \<not> hasAdjacentWords c0 a b)"
      if v: "isValidPosition c0 a b" for a b
    proof (cases "cell (board c) a b = cell (board c0) a b")
      case True
      then show ?thesis by simp
    next
      case False
      with r v have n: "notLetter (cell (board c0) a b)" "notLetter (cell (board c) a b)"
        by (auto simp: restored_def)
      from st v False have "cell (board c) a b = CHR '' '' \<Longrightarrow> \<not> hasAdjacentWords c0 a b"
        by (simp add: settled_def)
      with n False show ?thesis by (auto simp: notLetter_def)
    qed
    with r show ?thesis by (simp add: restored_def)
  qed
  have b: "\<exists>c1 c'. putWord c0 w x y d = Some c1 \<and> removeWord c1 w x y d = Some c' \<and>
          hWords c' = hWords c0 \<and> vWords c' = vWords c0 \<and> usedWords c' = usedWords c0 \<and>
          (\<forall>a b. isValidPosition c0 a b \<longrightarrow>
             cell (board c') a b =
               (if (a, b) = beforeCell d x y \<or> (a, b) = afterCell d x y (length w)
                then (if hasAdjacentWords c0 a b then CHR ''*'' else CHR '' '')
                else cell (board c0) a b))"
    if "effective c0 (w, x, y, d)"
    using undo_exact[OF assms that] .
  have e: "\<exists>c1 c'. putWord c0 w x y d = Some c1 \<and> removeWord c1 w x y d = Some c' \<and>
          board c' = board c0 \<and> hWords c' = hWords c0 \<and> vWords c' = vWords c0 \<and>
          usedWords c' = usedWords c0"
    if "effective c0 (w, x, y, d) \<and> NewCrossword wd ht = Some c0"
    using undo_on_fresh_grid[of wd ht c0 w x y d] that by simp
  from a b e show ?thesis unfolding hasAdjacentWords_letterBeside by blast
qed

theorem lifo_effective_restores_witness:
  "tidy xy42 \<and> lifo effective xy42 [] xyLeft42 \<and>
   hWords xyLeft42 = hWords xy42 \<and> vWords xyLeft42 = vWords xy42 \<and>
   usedWords xyLeft42 = usedWords xy42 \<and>
   effective xy42 (''AB'', 0, 0, Horizontal) \<and>
   putWord xy42 ''AB'' 0 0 Horizontal = Some xyab42 \<and>
   removeWord xyab42 ''AB'' 0 0 Horizontal = Some xyLeft42 \<and>
   isValidPosition xy42 0 2 \<and> (0, 2) = afterCell Horizontal 0 0 (length ''AB'') \<and>
   letterBeside xy42 0 2 \<and>
   cell (board xy42) 0 2 = CHR '' '' \<and> cell (board xyLeft42) 0 2 = CHR ''*'' \<and>
   isValidPosition xy42 0 3 \<and> cell (board xyLeft42) 0 3 = cell (board xy42) 0 3 \<and>
   tidy fresh42 \<and> effective fresh42 (''AB'', 0, 0, Horizontal) \<and>
   NewCrossword 4 2 = Some fresh42 \<and>
   (\<exists>c1 c'. putWord fresh42 ''AB'' 0 0 Horizontal = Some c1 \<and>
        removeWord c1 ''AB'' 0 0 Horizontal = Some c' \<and> board c' = board fresh42 \<and>
        hWords c' = hWords fresh42 \<and> vWords c' = vWords fresh42 \<and>
        usedWords c' = usedWords fresh42)"
proof -
  have v: "isValidPosition xy42 0 2" "isValidPosition xy42 0 3"
    by (simp_all add: isValidPosition_def xy42_def)
  have ac: "(0, 2) = afterCell Horizontal 0 0 (length ''AB'')"
    "(0, 3) \<noteq> afterCell Horizontal 0 0 (length ''AB'')"
    "(0, 2) \<noteq> beforeCell Horizontal 0 0" "(0, 3) \<noteq> beforeCell Horizontal 0 0"
    by (simp_all add: afterCell_def beforeCell_def spanCell_def)
  have b0: "cell (board xy42) 0 2 = CHR '' ''" by (simp add: cell_def xy42_def)
  have nb: "letterBeside xy42 0 2" by code_simp
  note tf = NewCrossword_tidy[OF fresh42_new]
  from lifo_effective_restores[OF tidy_xy42, of xyLeft42 "''AB''" 0 0 Horizontal]
    lifo_xy42_xyLeft42 effective_xy42_AB
  have r: "hWords xyLeft42 = hWords xy42" "vWords xyLeft42 = vWords xy42"
    "usedWords xyLeft42 = usedWords xy42"
    and ex: "\<exists>c1 c'. putWord xy42 ''AB'' 0 0 Horizontal = Some c1 \<and>
          removeWord c1 ''AB'' 0 0 Horizontal = Some c' \<and>
          (\<forall>a b. isValidPosition xy42 a b \<longrightarrow>
             cell (board c') a b =
               (if (a, b) = beforeCell Horizontal 0 0 \<or>
                   (a, b) = afterCell Horizontal 0 0 (length ''AB'')
                then (if letterBeside xy42 a b then CHR ''*'' else CHR '' '')
                else cell (board xy42) a b))"
    by blast+
  from ex xyab42_put xyab42_remove
  have cells: "\<And>a b. isValidPosition xy42 a b \<Longrightarrow>
             cell (board xyLeft42) a b =
               (if (a, b) = beforeCell Horizontal 0 0 \<or>
                   (a, b) = afterCell Horizontal 0 0 (length ''AB'')
                then (if letterBeside xy42 a b then CHR ''*'' else CHR '' '')
                else cell (board xy42) a b)"
    by auto
  from cells[OF v(1)] ac nb have m: "cell (board xyLeft42) 0 2 = CHR ''*''"
    by (simp del: length_Cons)
  from cells[OF v(2)] ac have k: "cell (board xyLeft42) 0 3 = cell (board xy42) 0 3"
    by (simp del: length_Cons)
  from lifo_effective_restores[OF tf, of _ "''AB''" 0 0 Horizontal 4 2]
    effective_fresh42_AB fresh42_new
  have f: "\<exists>c1 c'. putWord fresh42 ''AB'' 0 0 Horizontal = Some c1 \<and>
        removeWord c1 ''AB'' 0 0 Horizontal = Some c' \<and> board c' = board fresh42 \<and>
        hWords c' = hWords fresh42 \<and> vWords c' = vWords fresh42 \<and>
        usedWords c' = usedWords fresh42"
    by blast
  show ?thesis
    using tidy_xy42 lifo_xy42_xyLeft42 r effective_xy42_AB xyab42_put xyab42_remove v ac(1)
      nb b0 m k tf effective_fresh42_AB fresh42_new f
    by (simp del: length_Cons)
qed

end
